theory Spec2Isabelle
  imports Complex_Main "HOL-Library.Word" "HOL-Library.Multiset" "HOL-Library.Product_Lexorder"
    "HOL-Library.AList"
begin

chapter \<open>Part I: the embedding\<close>

section \<open>Column-major matrices and the scoring kernel\<close>

text \<open>
  A \<open>ColMajorMatrix<T>\<close> is the list of its columns; column \<open>j\<close> is the \<open>j\<close>-th vector.
  Element types (\<open>float\<close>, \<open>double\<close>) are modelled by \<open>real\<close>: rounding is outside the model.
  Reading a column or an element out of range is undefined behaviour in the source; the
  theorems below state the bounds they need.
\<close>

type_synonym matrix = "real list list"

definition num_cols :: "'a list list \<Rightarrow> nat" where
  "num_cols M = length M"

definition num_rows :: "'a list list \<Rightarrow> nat" where
  "num_rows M = (case M of [] \<Rightarrow> 0 | c # _ \<Rightarrow> length c)"

definition zero_matrix :: "nat \<Rightarrow> nat \<Rightarrow> matrix" where
  "zero_matrix rows cols = replicate cols (replicate rows 0)"

text \<open>
  Modelled from the spec: \<open>scoring.h\<close> is not among the sources. The spec gives
  \<open>L2(a, b)\<close> as the sum of squared element-wise differences over equal-length inputs;
  \<open>sum_of_squares(a, b)\<close> and \<open>sum_of_squares_distance\<close> name the same kernel.
\<close>

definition sum_of_squares :: "real list \<Rightarrow> real list \<Rightarrow> real" where
  "sum_of_squares a b = sum_list (map (\<lambda>(x, y). (x - y)\<^sup>2) (zip a b))"

definition L2 :: "real list \<Rightarrow> real list \<Rightarrow> real" where
  "L2 a b = sum_of_squares a b"

section \<open>The k-means trainer (\<open>kmeans_index\<close> of ivf\_index.h)\<close>

text \<open>
  The members \<open>dimension_\<close>, \<open>nlist_\<close>, \<open>max_iter_\<close>, \<open>tol_\<close>, \<open>nthreads_\<close> and
  \<open>centroids_\<close> of the class; a name cannot end in an underscore here, so the fields
  carry the prefix \<open>km_\<close> instead.
\<close>

record kmeans_index =
  km_dimension :: nat
  km_nlist :: nat
  km_max_iter :: nat
  km_tol :: real
  km_nthreads :: nat
  km_centroids :: matrix

text \<open>The constructor allocates \<open>centroids_(dimension, nlist)\<close>, a zero matrix.\<close>

definition kmeans_index_new :: "nat \<Rightarrow> nat \<Rightarrow> nat \<Rightarrow> real \<Rightarrow> nat \<Rightarrow> kmeans_index" where
  "kmeans_index_new dimension nlist max_iter tol nthreads =
     \<lparr>km_dimension = dimension, km_nlist = nlist, km_max_iter = max_iter, km_tol = tol,
      km_nthreads = nthreads, km_centroids = zero_matrix dimension nlist\<rparr>"

subsection \<open>\<open>kmeans_pp\<close>\<close>

text \<open>\<open>std::numeric_limits<double>::max()\<close>, that is \<open>(2 - 2\<^sup>-\<^sup>5\<^sup>2) \<sdot> 2\<^sup>1\<^sup>0\<^sup>2\<^sup>3\<close>, written out.\<close>

definition double_max :: real where
  "double_max = 179769313486231570814527423731704356798070567525844996598917476803157260780028538760589558632766878171540458953514382464234321326889464182768467546703537516986049910576551282076245490090389328944075868508455133942304583236903222948165808559332123348274797826204144723168738177180919299881250404026184124858368"

text \<open>
  The two history fields record what the random generator was asked and what it answered:
  \<open>picked\<close> lists \<open>choice\<close> and every \<open>nextIndex\<close> in order, \<open>drawn_from\<close> lists the weight
  vector handed to each \<open>std::discrete_distribution\<close>.
\<close>

record pp_trace =
  picked :: "nat list"
  drawn_from :: "real list list"

text \<open>
  The generator is a parameter: \<open>choice\<close> is the outcome of the uniform draw and
  \<open>draw i w\<close> the outcome of the weighted draw of iteration \<open>i\<close> on the weights \<open>w\<close>.
  The loop runs \<open>i = 1 .. km_nlist - 1\<close>; each training vector \<open>j\<close> updates
  \<open>distances[j]\<close> independently of the others, so the parallel sweep is a map.
\<close>

function kmeans_pp_loop ::
  "(nat \<Rightarrow> real list \<Rightarrow> nat) \<Rightarrow> matrix \<Rightarrow> nat \<Rightarrow> nat \<Rightarrow>
   matrix \<times> real list \<times> pp_trace \<Rightarrow> matrix \<times> real list \<times> pp_trace" where
  "kmeans_pp_loop draw training_set nlist i (cents, distances, tr) =
     (if i < nlist then
        let distances1 =
              map (\<lambda>j. min (distances ! j) (sum_of_squares (training_set ! j) (cents ! (i - 1))))
                [0..<num_cols training_set];
            nextIndex = draw i distances1;
            cents1 = cents[i := training_set ! nextIndex];
            distances2 = distances1[nextIndex := 0]
        in kmeans_pp_loop draw training_set nlist (Suc i)
             (cents1, distances2,
              tr\<lparr>picked := picked tr @ [nextIndex], drawn_from := drawn_from tr @ [distances1]\<rparr>)
      else (cents, distances, tr))"
  by pat_completeness auto
termination
  by (relation "measure (\<lambda>(draw, training_set, nlist, i, st). nlist - i)") auto

definition kmeans_pp ::
  "nat \<Rightarrow> (nat \<Rightarrow> real list \<Rightarrow> nat) \<Rightarrow> kmeans_index \<Rightarrow> matrix \<Rightarrow> kmeans_index \<times> pp_trace" where
  "kmeans_pp choice draw idx training_set =
     (let cents0 = (km_centroids idx)[0 := training_set ! choice];
          distances0 = replicate (num_cols training_set) (double_max / 8);
          (cents, distances, tr) =
            kmeans_pp_loop draw training_set (km_nlist idx) 1
              (cents0, distances0, \<lparr>picked = [choice], drawn_from = []\<rparr>)
      in (idx\<lparr>km_centroids := cents\<rparr>, tr))"

text \<open>
  The contract of \<open>std::discrete_distribution\<close>: index \<open>j\<close> is drawn with probability
  proportional to its weight, so when some weight is positive the outcome is an index of
  positive weight.
\<close>

definition discrete_distribution_ok :: "(nat \<Rightarrow> real list \<Rightarrow> nat) \<Rightarrow> bool" where
  "discrete_distribution_ok draw \<longleftrightarrow>
     (\<forall>i w. (\<exists>j < length w. 0 < w ! j) \<longrightarrow> draw i w < length w \<and> 0 < w ! draw i w)"

text \<open>One generator that meets the contract: the first index of positive weight.\<close>

fun first_positive :: "real list \<Rightarrow> nat" where
  "first_positive [] = 0"
| "first_positive (x # xs) = (if 0 < x then 0 else Suc (first_positive xs))"

subsection \<open>\<open>train_no_init\<close>\<close>

text \<open>
  Modelled from the spec: \<open>detail/flat/qv.h\<close> is not among the sources. The spec has
  \<open>qv_partition\<close> assign every vector to its nearest centroid; among equally near
  centroids this model takes the lowest index.
\<close>

fun argmin :: "real list \<Rightarrow> nat" where
  "argmin [] = 0"
| "argmin [x] = 0"
| "argmin (x # y # ys) = (let j = argmin (y # ys) in if (y # ys) ! j < x then Suc j else 0)"

definition qv_partition :: "matrix \<Rightarrow> matrix \<Rightarrow> nat \<Rightarrow> nat list" where
  "qv_partition centroids training_set nthreads =
     map (\<lambda>v. argmin (map (\<lambda>c. sum_of_squares c v) centroids)) training_set"

text \<open>\<open>for (j = 0; j < n; ++j) body(column j)\<close>, rewriting the columns in place.\<close>

definition for_cols :: "nat \<Rightarrow> (nat \<Rightarrow> 'a \<Rightarrow> 'a) \<Rightarrow> 'a list \<Rightarrow> 'a list" where
  "for_cols n body M = fold (\<lambda>j M. M[j := body j (M ! j)]) [0..<n] M"

text \<open>Lines 239--247: each training vector is summed into the centroid of its partition.\<close>

definition accumulate_one ::
  "nat \<Rightarrow> matrix \<Rightarrow> nat list \<Rightarrow> nat \<Rightarrow> matrix \<times> nat list \<Rightarrow> matrix \<times> nat list" where
  "accumulate_one dimension training_set parts i =
     (\<lambda>(cents, degrees).
        let part = parts ! i;
            centroid = cents ! part;
            vector = training_set ! i
        in (cents[part := map (\<lambda>j. centroid ! j + vector ! j) [0..<dimension]],
            degrees[part := degrees ! part + 1]))"

definition accumulate ::
  "nat \<Rightarrow> matrix \<Rightarrow> nat list \<Rightarrow> matrix \<times> nat list \<Rightarrow> matrix \<times> nat list" where
  "accumulate dimension training_set parts =
     fold (accumulate_one dimension training_set parts) [0..<num_cols training_set]"

text \<open>Lines 262--269: the guarded division.\<close>

definition divide_by_degree :: "nat \<Rightarrow> nat list \<Rightarrow> nat \<Rightarrow> real list \<Rightarrow> real list" where
  "divide_by_degree dimension degrees j centroid =
     fold (\<lambda>k c. if degrees ! j \<noteq> 0 then c[k := c ! k / real (degrees ! j)] else c)
       [0..<dimension] centroid"

text \<open>
  One pass of the \<open>iter\<close> loop. It returns the index with its new centroids, and the
  \<open>degrees\<close> counters as the pass leaves them.
\<close>

definition train_iter :: "kmeans_index \<Rightarrow> matrix \<Rightarrow> kmeans_index \<times> nat list" where
  "train_iter idx training_set =
     (let parts = qv_partition (km_centroids idx) training_set (km_nthreads idx);
          zeroed = for_cols (km_nlist idx) (\<lambda>j c. replicate (length c) 0) (km_centroids idx);
          degrees0 = replicate (km_nlist idx) 0;
          (summed, degrees) = accumulate (km_dimension idx) training_set parts (zeroed, degrees0);
          divided = for_cols (km_nlist idx) (divide_by_degree (km_dimension idx) degrees) summed
      in (idx\<lparr>km_centroids := divided\<rparr>, degrees))"

fun train_iters :: "nat \<Rightarrow> kmeans_index \<Rightarrow> matrix \<Rightarrow> kmeans_index" where
  "train_iters 0 idx training_set = idx"
| "train_iters (Suc n) idx training_set = train_iters n (fst (train_iter idx training_set)) training_set"

definition train_no_init :: "kmeans_index \<Rightarrow> matrix \<Rightarrow> kmeans_index" where
  "train_no_init idx training_set = train_iters (km_max_iter idx) idx training_set"

definition kmeans_train ::
  "nat \<Rightarrow> (nat \<Rightarrow> real list \<Rightarrow> nat) \<Rightarrow> kmeans_index \<Rightarrow> matrix \<Rightarrow> kmeans_index" where
  "kmeans_train choice draw idx training_set =
     train_no_init (fst (kmeans_pp choice draw idx training_set)) training_set"

section \<open>Recall reporting of the IVF query driver (ivf\_flat.cc)\<close>

text \<open>
  \<open>std::set_intersection\<close> into the counting output iterator: the two-cursor merge, one
  count per pair of equal elements. On sorted ranges it counts the common elements.
\<close>

fun set_intersection_count :: "nat list \<Rightarrow> nat list \<Rightarrow> nat" where
  "set_intersection_count [] ys = 0"
| "set_intersection_count (x # xs) [] = 0"
| "set_intersection_count (x # xs) (y # ys) =
     (if x < y then set_intersection_count xs (y # ys)
      else if y < x then set_intersection_count (x # xs) ys
      else Suc (set_intersection_count xs ys))"

text \<open>
  Lines 272--287. \<open>top_k\<close> is the \<open>k \<times> Q\<close> matrix of result ids, \<open>groundtruth\<close> the matrix
  read from \<open>--groundtruth_uri\<close>. The first sort covers the whole result column; the second
  covers \<open>[begin, begin + k_nn)\<close> of the ground-truth column, and the intersection then runs
  to \<open>end(groundtruth[i])\<close>.
\<close>

definition intersect_column :: "nat list \<Rightarrow> nat list \<Rightarrow> nat \<Rightarrow> nat" where
  "intersect_column result truth k_nn =
     set_intersection_count (sort result) (sort (take k_nn truth) @ drop k_nn truth)"

definition total_intersected :: "nat list list \<Rightarrow> nat list list \<Rightarrow> nat \<Rightarrow> nat" where
  "total_intersected top_k groundtruth k_nn =
     sum_list (map (\<lambda>i. intersect_column (top_k ! i) (groundtruth ! i) k_nn) [0..<num_cols top_k])"

definition ivf_recall :: "nat list list \<Rightarrow> nat list list \<Rightarrow> nat \<Rightarrow> real" where
  "ivf_recall top_k groundtruth k_nn =
     real (total_intersected top_k groundtruth k_nn) / real (num_cols top_k * num_rows top_k)"

text \<open>
  The spec's formula, in its words: R@k is the sum over the queries of
  \<open>|result_i \<inter> truth_i|\<close>, divided by \<open>k \<sdot> Q\<close>.
\<close>

definition spec_recall :: "nat list list \<Rightarrow> nat list list \<Rightarrow> nat \<Rightarrow> real" where
  "spec_recall results truths k =
     real (sum_list (map (\<lambda>i. card (set (results ! i) \<inter> set (truths ! i))) [0..<length results]))
       / real (k * length results)"

section \<open>The fixed-capacity top-k heap\<close>

text \<open>
  Modelled from the spec: \<open>utils/fixed_min_heap.h\<close> and \<open>fixed_min_queues.h\<close> are not among
  the sources. The spec describes a bounded max-heap by score that keeps the \<open>k\<close> smallest
  (score, id) pairs: \<open>insert\<close> pushes while the size is below the capacity, otherwise
  replaces the current maximum when the new score is smaller, otherwise does nothing;
  optionally it refuses an id that is already resident; the drain returns the entries in
  ascending score order. The spec leaves ties on the score open.

  What the spec and the sources leave open is a parameter of the model, collected in one
  record: which maximal entry a replacement evicts, which minimal entry a min-heap pop
  takes, the order of equal scores in the drain, the iteration order of a
  \<open>std::unordered_map\<close>, and whether \<open>add_edge\<close> of the adjacency list drops an edge whose
  target is already present or appends it all the same (see below).
\<close>

type_synonym entry = "real \<times> nat"

type_synonym heap = "entry list"

record open_choices =
  evict :: "heap \<Rightarrow> nat"
  pop_min :: "heap \<Rightarrow> nat"
  drain :: "heap \<Rightarrow> heap"
  map_order :: "(nat \<times> real) list \<Rightarrow> (nat \<times> real) list"
  drop_duplicate_edge :: bool

definition choices_ok :: "open_choices \<Rightarrow> bool" where
  "choices_ok oc \<longleftrightarrow>
     (\<forall>h. h \<noteq> [] \<longrightarrow> evict oc h < length h \<and> (\<forall>e \<in> set h. fst e \<le> fst (h ! evict oc h))) \<and>
     (\<forall>h. h \<noteq> [] \<longrightarrow> pop_min oc h < length h \<and> (\<forall>e \<in> set h. fst (h ! pop_min oc h) \<le> fst e)) \<and>
     (\<forall>h. mset (drain oc h) = mset h \<and> sorted (map fst (drain oc h))) \<and>
     (\<forall>m. mset (map_order oc m) = mset m)"

definition heap_insert :: "open_choices \<Rightarrow> nat \<Rightarrow> heap \<Rightarrow> entry \<Rightarrow> bool \<times> heap" where
  "heap_insert oc capacity h e =
     (if length h < capacity then (True, h @ [e])
      else if h \<noteq> [] \<and> fst e < fst (h ! evict oc h) then (True, h[evict oc h := e])
      else (False, h))"

definition heap_insert_unique :: "open_choices \<Rightarrow> nat \<Rightarrow> heap \<Rightarrow> entry \<Rightarrow> bool \<times> heap" where
  "heap_insert_unique oc capacity h e =
     (if snd e \<in> snd ` set h then (False, h) else heap_insert oc capacity h e)"

text \<open>
  \<open>get_top_k_with_scores_from_heap(result, top_k, top_k_scores)\<close>: the two output vectors
  have \<open>k_nn\<close> value-initialised slots; the drained entries fill them from the front.
\<close>

definition get_top_k_with_scores_from_heap :: "open_choices \<Rightarrow> heap \<Rightarrow> nat \<Rightarrow> real list \<times> nat list" where
  "get_top_k_with_scores_from_heap oc h k_nn =
     (let s = take k_nn (drain oc h)
      in (map fst s @ replicate (k_nn - length s) 0, map snd s @ replicate (k_nn - length s) 0))"

text \<open>Two sets of choices that differ only in the drain order of equal scores.\<close>

fun first_max :: "heap \<Rightarrow> nat" where
  "first_max [] = 0"
| "first_max [e] = 0"
| "first_max (e # e' # es) =
     (let j = first_max (e' # es) in if fst e < fst ((e' # es) ! j) then Suc j else 0)"

fun first_min :: "heap \<Rightarrow> nat" where
  "first_min [] = 0"
| "first_min [e] = 0"
| "first_min (e # e' # es) =
     (let j = first_min (e' # es) in if fst ((e' # es) ! j) < fst e then Suc j else 0)"

definition stable_ties :: open_choices where
  "stable_ties =
     \<lparr>evict = first_max, pop_min = first_min, drain = sort_key fst, map_order = id,
      drop_duplicate_edge = True\<rparr>"

definition reversed_ties :: open_choices where
  "reversed_ties =
     \<lparr>evict = first_max, pop_min = first_min, drain = sort_key fst \<circ> rev, map_order = id,
      drop_duplicate_edge = True\<rparr>"

section \<open>The vq query kernel (\<open>vq_query_heap\<close> of flat\_query.h)\<close>

text \<open>
  Modelled from the spec: the matrix classes are not among the sources. The spec gives the
  kernels one column-set capability with two implementations: a resident matrix, which
  reports offset 0, is not blocked and whose \<open>advance\<close> returns false; and a streaming
  matrix, which holds one block of columns at a time, reports the absolute offset of that
  block, and whose \<open>advance\<close> loads the next block and returns whether there was one.
\<close>

datatype colset = Resident matrix | Streaming "matrix list" nat

fun is_blocked :: "colset \<Rightarrow> bool" where
  "is_blocked (Resident M) = False"
| "is_blocked (Streaming blocks cursor) = True"

fun columns :: "colset \<Rightarrow> matrix" where
  "columns (Resident M) = M"
| "columns (Streaming blocks cursor) = (if cursor < length blocks then blocks ! cursor else [])"

fun offset :: "colset \<Rightarrow> nat" where
  "offset (Resident M) = 0"
| "offset (Streaming blocks cursor) = sum_list (map length (take cursor blocks))"

fun advance :: "colset \<Rightarrow> bool \<times> colset" where
  "advance (Resident M) = (False, Resident M)"
| "advance (Streaming blocks cursor) =
     (if Suc cursor < length blocks then (True, Streaming blocks (Suc cursor))
      else (False, Streaming blocks cursor))"

fun remaining :: "colset \<Rightarrow> nat" where
  "remaining (Resident M) = 0"
| "remaining (Streaming blocks cursor) = length blocks - cursor"

datatype flat_error = InvalidConfig | OutOfBounds | DivisionByZero

text \<open>
  The table \<open>scores[n][j]\<close> of heaps, one row per worker, and the number of scores computed
  and offered to a heap so far. An access outside the table is undefined behaviour in the
  source; the model stops there with \<open>OutOfBounds\<close> and the count reached.
\<close>

record vq_state =
  scores :: "heap list list"
  scored :: nat

text \<open>\<open>scores[n][j].insert(element{score, id})\<close> with \<open>score = L2(q[j], db_vec)\<close>.\<close>

definition score_and_insert ::
  "open_choices \<Rightarrow> nat \<Rightarrow> colset \<Rightarrow> real list \<Rightarrow> nat \<Rightarrow> nat \<Rightarrow> nat \<Rightarrow> nat \<Rightarrow> vq_state \<Rightarrow>
   (flat_error \<times> nat) + vq_state" where
  "score_and_insert oc k q db_vec n j slot ident st =
     (if j < length (columns q) \<and> n < length (scores st) \<and> slot < length (scores st ! n) then
        let score = L2 (columns q ! j) db_vec;
            row = scores st ! n
        in Inr (st\<lparr>scores := (scores st)[n := row[slot := snd (heap_insert oc k (row ! slot) (score, ident))]],
                  scored := Suc (scored st)\<rparr>)
      else Inl (OutOfBounds, scored st))"

text \<open>The body of the parallel sweep for one database vector: lines 218--237.\<close>

fun sweep_queries ::
  "open_choices \<Rightarrow> nat \<Rightarrow> bool \<Rightarrow> bool \<Rightarrow> colset \<Rightarrow> colset \<Rightarrow> real list \<Rightarrow> nat \<Rightarrow> nat \<Rightarrow> nat list \<Rightarrow>
   vq_state \<Rightarrow> (flat_error \<times> nat) + vq_state" where
  "sweep_queries oc k block_db block_q db q db_vec n i [] st = Inr st"
| "sweep_queries oc k block_db block_q db q db_vec n i (j # js) st =
     (case (if block_db then score_and_insert oc k q db_vec n j j (i + offset db) st
            else if block_q then score_and_insert oc k q db_vec n j (j + offset q) i st
            else score_and_insert oc k q db_vec n j j i st) of
        Inl e \<Rightarrow> Inl e
      | Inr st' \<Rightarrow> sweep_queries oc k block_db block_q db q db_vec n i js st')"

text \<open>
  Modelled from the spec: \<open>stdx::range_for_each\<close> with the indexed parallel policy is not
  among the sources. The spec partitions the outer axis across a pool of \<open>T\<close> workers, each
  receiving the item, its worker id \<open>n\<close> and the global index \<open>i\<close>; the partition is into
  contiguous blocks of \<open>\<lceil>size / T\<rceil>\<close> items, as the file's own \<open>std::async\<close> loops do. Each
  worker writes only row \<open>n\<close> of the table, so the workers are run one after the other.
\<close>

definition worker_of :: "nat \<Rightarrow> nat \<Rightarrow> nat \<Rightarrow> nat" where
  "worker_of nthreads n_items i = i div ((n_items + nthreads - 1) div nthreads)"

fun sweep_db ::
  "open_choices \<Rightarrow> nat \<Rightarrow> nat \<Rightarrow> nat \<Rightarrow> bool \<Rightarrow> bool \<Rightarrow> colset \<Rightarrow> colset \<Rightarrow> nat list \<Rightarrow> vq_state \<Rightarrow>
   (flat_error \<times> nat) + vq_state" where
  "sweep_db oc k nthreads size_q block_db block_q db q [] st = Inr st"
| "sweep_db oc k nthreads size_q block_db block_q db q (i # is) st =
     (case sweep_queries oc k block_db block_q db q (columns db ! i)
             (worker_of nthreads (length (columns db)) i) i [0..<size_q] st of
        Inl e \<Rightarrow> Inl e
      | Inr st' \<Rightarrow> sweep_db oc k nthreads size_q block_db block_q db q is st')"

text \<open>The \<open>for (;;)\<close> loop of lines 214--248: sweep the resident block, then advance.\<close>

function vq_blocks ::
  "open_choices \<Rightarrow> nat \<Rightarrow> nat \<Rightarrow> nat \<Rightarrow> bool \<Rightarrow> bool \<Rightarrow> colset \<Rightarrow> colset \<Rightarrow> vq_state \<Rightarrow>
   (flat_error \<times> nat) + (colset \<times> colset \<times> vq_state)" where
  "vq_blocks oc k nthreads size_q block_db block_q db q st =
     (case sweep_db oc k nthreads size_q block_db block_q db q [0..<length (columns db)] st of
        Inl e \<Rightarrow> Inl e
      | Inr st' \<Rightarrow>
          if block_db then
            (if fst (advance db)
             then vq_blocks oc k nthreads size_q block_db block_q (snd (advance db)) q st'
             else Inr (snd (advance db), q, st'))
          else
            (if fst (advance q)
             then vq_blocks oc k nthreads size_q block_db block_q db (snd (advance q)) st'
             else Inr (db, snd (advance q), st')))"
  by pat_completeness auto
termination
proof (relation "measure (\<lambda>(oc, k, nthreads, size_q, block_db, block_q, db, q, st).
                    remaining db + remaining q)")
  show "wf (measure (\<lambda>(oc, k, nthreads, size_q, block_db, block_q, db, q, st).
                    remaining db + remaining q))"
    by simp
next
  fix oc :: open_choices and k nthreads size_q :: nat and block_db block_q :: bool
    and db q :: colset and st st' :: vq_state
  assume "fst (advance db)"
  then have "remaining (snd (advance db)) < remaining db"
    by (cases db) (auto split: if_splits)
  then show "((oc, k, nthreads, size_q, block_db, block_q, snd (advance db), q, st'),
              (oc, k, nthreads, size_q, block_db, block_q, db, q, st))
             \<in> measure (\<lambda>(oc, k, nthreads, size_q, block_db, block_q, db, q, st).
                    remaining db + remaining q)"
    by simp
next
  fix oc :: open_choices and k nthreads size_q :: nat and block_db block_q :: bool
    and db q :: colset and st st' :: vq_state
  assume "fst (advance q)"
  then have "remaining (snd (advance q)) < remaining q"
    by (cases q) (auto split: if_splits)
  then show "((oc, k, nthreads, size_q, block_db, block_q, db, snd (advance q), st'),
              (oc, k, nthreads, size_q, block_db, block_q, db, q, st))
             \<in> measure (\<lambda>(oc, k, nthreads, size_q, block_db, block_q, db, q, st).
                    remaining db + remaining q)"
    by simp
qed

text \<open>Lines 250--256: the heaps of workers \<open>1 .. nthreads - 1\<close> are merged into row 0.\<close>

definition merge_entry :: "open_choices \<Rightarrow> nat \<Rightarrow> nat \<Rightarrow> entry \<Rightarrow> heap list list \<Rightarrow> flat_error + heap list list" where
  "merge_entry oc k j e tbl =
     (if 0 < length tbl \<and> j < length (tbl ! 0) then
        Inr (tbl[0 := (tbl ! 0)[j := snd (heap_insert oc k (tbl ! 0 ! j) e)]])
      else Inl OutOfBounds)"

fun merge_entries :: "open_choices \<Rightarrow> nat \<Rightarrow> nat \<Rightarrow> entry list \<Rightarrow> heap list list \<Rightarrow> flat_error + heap list list" where
  "merge_entries oc k j [] tbl = Inr tbl"
| "merge_entries oc k j (e # es) tbl =
     (case merge_entry oc k j e tbl of Inl err \<Rightarrow> Inl err | Inr tbl' \<Rightarrow> merge_entries oc k j es tbl')"

fun merge_workers :: "open_choices \<Rightarrow> nat \<Rightarrow> nat \<Rightarrow> nat list \<Rightarrow> heap list list \<Rightarrow> flat_error + heap list list" where
  "merge_workers oc k j [] tbl = Inr tbl"
| "merge_workers oc k j (n # ns) tbl =
     (if n < length tbl \<and> j < length (tbl ! n) then
        (case merge_entries oc k j (tbl ! n ! j) tbl of
           Inl err \<Rightarrow> Inl err
         | Inr tbl' \<Rightarrow> merge_workers oc k j ns tbl')
      else Inl OutOfBounds)"

fun merge_queries :: "open_choices \<Rightarrow> nat \<Rightarrow> nat \<Rightarrow> nat list \<Rightarrow> heap list list \<Rightarrow> flat_error + heap list list" where
  "merge_queries oc k nthreads [] tbl = Inr tbl"
| "merge_queries oc k nthreads (j # js) tbl =
     (case merge_workers oc k j [1..<nthreads] tbl of
        Inl err \<Rightarrow> Inl err
      | Inr tbl' \<Rightarrow> merge_queries oc k nthreads js tbl')"

text \<open>
  Lines 258--288. \<open>sort_heap\<close> orders the pairs by \<open>operator<\<close> of \<open>std::pair\<close>, that is
  lexicographically; the ids then fill column \<open>j\<close> of the \<open>k \<times> Q\<close> result from the top. The
  \<open>std::async\<close> tasks cover \<open>j = 0 .. size(q) - 1\<close> between them; their block size divides
  by \<open>min(nthreads, size(q))\<close>.
\<close>

definition heap_column :: "nat \<Rightarrow> heap \<Rightarrow> nat list" where
  "heap_column k h = (let ids = map snd (sort h) in take k ids @ replicate (k - length ids) 0)"

definition extract_top_k :: "nat \<Rightarrow> nat \<Rightarrow> colset \<Rightarrow> heap list list \<Rightarrow> flat_error + nat list list" where
  "extract_top_k k nthreads q tbl =
     (if min nthreads (length (columns q)) = 0 then Inl DivisionByZero
      else Inr (map (\<lambda>j. heap_column k (tbl ! 0 ! j)) [0..<length (columns q)]))"

text \<open>
  \<open>vq_query_heap(db, q, k, nthreads)\<close>. The result is the outcome together with the number
  of scores that were computed and offered to a heap before the function returned or threw.
  \<open>std::runtime_error("Can't block both db and q")\<close> is the error kind \<open>InvalidConfig\<close>.
\<close>

definition vq_query_heap ::
  "open_choices \<Rightarrow> colset \<Rightarrow> colset \<Rightarrow> nat \<Rightarrow> nat \<Rightarrow> (flat_error + nat list list) \<times> nat" where
  "vq_query_heap oc db q k nthreads =
     (let block_db = is_blocked db;
          block_q = is_blocked q
      in if block_db \<and> block_q then (Inl InvalidConfig, 0)
         else
           let st0 = \<lparr>scores = replicate nthreads (replicate (length (columns q)) []), scored = 0\<rparr>;
               size_q = length (columns q)
           in case vq_blocks oc k nthreads size_q block_db block_q db q st0 of
                Inl (e, n) \<Rightarrow> (Inl e, n)
              | Inr (db', q', st) \<Rightarrow>
                  (case merge_queries oc k nthreads [0..<length (columns q')] (scores st) of
                     Inl e \<Rightarrow> (Inl e, scored st)
                   | Inr tbl \<Rightarrow> (extract_top_k k nthreads q' tbl, scored st)))"

section \<open>The adjacency list (adj\_list.h)\<close>

text \<open>
  Modelled from the spec: \<open>detail/graph/adj_list.h\<close> is not among the sources. The spec
  gives each node a list of (score, id) pairs; \<open>out_edges(p)\<close> returns the current list,
  \<open>add_edge(p, q, s)\<close> ``appends (ignoring duplicate target ids)'', \<open>clear()\<close> empties the
  list, and \<open>E\<close> is the total number of edges. The words on duplicates can be read two ways:
  the edge is dropped when \<open>q\<close> is already a target of \<open>p\<close>, or it is appended without a
  look at the targets. \<open>drop_duplicate_edge\<close> selects the reading; the theorems hold for both.
\<close>

type_synonym adj_list = "entry list list"

definition adj_list_new :: "nat \<Rightarrow> adj_list" where
  "adj_list_new num_vertices = replicate num_vertices []"

definition num_vertices :: "adj_list \<Rightarrow> nat" where
  "num_vertices graph = length graph"

definition out_edges :: "adj_list \<Rightarrow> nat \<Rightarrow> entry list" where
  "out_edges graph p = graph ! p"

definition out_degree :: "adj_list \<Rightarrow> nat \<Rightarrow> nat" where
  "out_degree graph p = length (out_edges graph p)"

definition num_edges :: "adj_list \<Rightarrow> nat" where
  "num_edges graph = sum_list (map length graph)"

definition add_edge :: "open_choices \<Rightarrow> adj_list \<Rightarrow> nat \<Rightarrow> nat \<Rightarrow> real \<Rightarrow> adj_list" where
  "add_edge oc graph p q s =
     (if drop_duplicate_edge oc \<and> q \<in> snd ` set (out_edges graph p) then graph
      else graph[p := out_edges graph p @ [(s, q)]])"

definition clear_edges :: "adj_list \<Rightarrow> nat \<Rightarrow> adj_list" where
  "clear_edges graph p = graph[p := []]"

section \<open>The Vamana graph engine (vamana.h)\<close>

datatype vamana_error =
  AssertionFailure
| MissingMetadata string
| MetadataTypeMismatch string
| MissingArray string
| ArrayOutOfBounds

subsection \<open>\<open>greedy_search\<close>\<close>

text \<open>
  The visited set is a \<open>std::unordered_set\<close>; the model keeps its elements in the order
  of insertion. Lines 202--210 rebuild \<open>q2\<close> from the unvisited entries of \<open>result\<close>.
\<close>

definition refill :: "open_choices \<Rightarrow> nat \<Rightarrow> heap \<Rightarrow> nat list \<Rightarrow> heap" where
  "refill oc L result visited =
     fold (\<lambda>(s, p) q2. if p \<notin> set visited then snd (heap_insert oc L q2 (s, p)) else q2) result []"

text \<open>Lines 216--228: the out-neighbours of \<open>p_star\<close> are offered to \<open>result\<close> and \<open>q2\<close>.\<close>

definition offer :: "open_choices \<Rightarrow> matrix \<Rightarrow> real list \<Rightarrow> nat \<Rightarrow> nat list \<Rightarrow> nat \<Rightarrow> heap \<times> heap \<Rightarrow> heap \<times> heap" where
  "offer oc db query L visited p =
     (\<lambda>(result, q2).
        if p \<notin> set visited then
          let score = sum_of_squares (db ! p) query;
              (inserted, result') = heap_insert_unique oc L result (score, p)
          in if inserted then (result', snd (heap_insert oc L q2 (score, p))) else (result', q2)
        else (result, q2))"

definition expand ::
  "open_choices \<Rightarrow> adj_list \<Rightarrow> matrix \<Rightarrow> real list \<Rightarrow> nat \<Rightarrow> nat \<Rightarrow> nat list \<Rightarrow> heap \<Rightarrow> heap \<times> heap" where
  "expand oc graph db query L p_star visited result =
     fold (offer oc db query L visited) (map snd (out_edges graph p_star))
       (result, refill oc L result visited)"

definition remove_nth :: "nat \<Rightarrow> 'a list \<Rightarrow> 'a list" where
  "remove_nth i xs = take i xs @ drop (Suc i) xs"

text \<open>
  The \<open>while (!q1.empty())\<close> loop. It need not terminate on every input, so the result is
  an option: \<open>None\<close> stands for a loop that runs forever.
\<close>

partial_function (option) greedy_loop ::
  "open_choices \<Rightarrow> adj_list \<Rightarrow> matrix \<Rightarrow> real list \<Rightarrow> nat \<Rightarrow> heap \<Rightarrow> heap \<Rightarrow> nat list \<Rightarrow>
   (heap \<times> nat list) option" where
  "greedy_loop oc graph db query L result q1 visited =
     (if q1 = [] then Some (result, visited)
      else
        let p_star = snd (q1 ! pop_min oc q1);
            q1' = remove_nth (pop_min oc q1) q1
        in if p_star \<in> set visited then greedy_loop oc graph db query L result q1' visited
           else
             let visited' = visited @ [p_star];
                 step = expand oc graph db query L p_star visited' result
             in greedy_loop oc graph db query L (fst step) (snd step) visited')"

declare greedy_loop.simps [code]

text \<open>
  \<open>assert(L >= k_nn)\<close> is the first statement; a failed assertion aborts the program. The
  function returns the \<open>k_nn\<close> scores, the \<open>k_nn\<close> ids and the visited set.
\<close>

definition greedy_search ::
  "open_choices \<Rightarrow> adj_list \<Rightarrow> matrix \<Rightarrow> nat \<Rightarrow> real list \<Rightarrow> nat \<Rightarrow> nat \<Rightarrow>
   (vamana_error + real list \<times> nat list \<times> nat list) option" where
  "greedy_search oc graph db source query k_nn L =
     (if \<not> L \<ge> k_nn then Some (Inl AssertionFailure)
      else
        let result = snd (heap_insert oc L [] (sum_of_squares (db ! source) query, source));
            q1 = snd (heap_insert oc L [] (sum_of_squares (db ! source) query, source))
        in case greedy_loop oc graph db query L result q1 [] of
             None \<Rightarrow> None
           | Some (result', visited_vertices) \<Rightarrow>
               let (top_k_scores, top_k) = get_top_k_with_scores_from_heap oc result' k_nn
               in Some (Inr (top_k_scores, top_k, visited_vertices)))"

subsection \<open>\<open>robust_prune\<close>\<close>

text \<open>\<open>V_map.try_emplace(key, value)\<close>: the first value stored for a key stays.\<close>

definition try_emplace :: "(nat \<times> real) list \<Rightarrow> nat \<Rightarrow> real \<Rightarrow> (nat \<times> real) list" where
  "try_emplace m k v = (if k \<in> fst ` set m then m else m @ [(k, v)])"

text \<open>Lines 289--314: the candidates \<open>V\<close>, in the iteration order of \<open>V_map\<close>.\<close>

definition candidates :: "open_choices \<Rightarrow> adj_list \<Rightarrow> matrix \<Rightarrow> nat \<Rightarrow> nat list \<Rightarrow> entry list" where
  "candidates oc graph db p V_in =
     (let m1 = fold (\<lambda>v m. if v \<noteq> p then try_emplace m v (sum_of_squares (db ! v) (db ! p)) else m)
                 V_in [];
          m2 = fold (\<lambda>(ss, pp) m. if pp \<noteq> p then try_emplace m pp ss else m) (out_edges graph p) m1
      in map (\<lambda>(v, score). (score, v)) (map_order oc m2))"

text \<open>\<open>std::min_element\<close> by score: the first of the smallest entries.\<close>

fun min_element :: "entry \<Rightarrow> entry list \<Rightarrow> entry" where
  "min_element e [] = e"
| "min_element e (e' # es) = (let m = min_element e' es in if fst m < fst e then m else e)"

text \<open>Lines 353--365: the entries that stay in \<open>new_V\<close>.\<close>

definition survivors :: "matrix \<Rightarrow> nat \<Rightarrow> real \<Rightarrow> nat \<Rightarrow> entry list \<Rightarrow> entry list" where
  "survivors db p alpha p_star V =
     filter (\<lambda>(ss, pp). \<not> alpha * sum_of_squares (db ! p_star) (db ! pp) \<le> ss \<and> pp \<noteq> p) V"

text \<open>The \<open>while (!V.empty())\<close> loop, with \<open>assert(p_star != p)\<close> and the \<open>break\<close>.\<close>

partial_function (option) prune_loop ::
  "open_choices \<Rightarrow> matrix \<Rightarrow> nat \<Rightarrow> real \<Rightarrow> nat \<Rightarrow> adj_list \<Rightarrow> entry list \<Rightarrow>
   (vamana_error + adj_list) option" where
  "prune_loop oc db p alpha R graph V =
     (case V of
        [] \<Rightarrow> Some (Inr graph)
      | e # es \<Rightarrow>
          let s_star = fst (min_element e es);
              p_star = snd (min_element e es)
          in if p_star = p then Some (Inl AssertionFailure)
             else
               let graph' = add_edge oc graph p p_star s_star
               in if out_degree graph' p = R then Some (Inr graph')
                  else prune_loop oc db p alpha R graph' (survivors db p alpha p_star V))"

declare prune_loop.simps [code]

definition robust_prune ::
  "open_choices \<Rightarrow> adj_list \<Rightarrow> matrix \<Rightarrow> nat \<Rightarrow> nat list \<Rightarrow> real \<Rightarrow> nat \<Rightarrow>
   (vamana_error + adj_list) option" where
  "robust_prune oc graph db p V_in alpha R =
     prune_loop oc db p alpha R (clear_edges graph p) (candidates oc graph db p V_in)"

subsection \<open>\<open>medioid\<close>\<close>

text \<open>\<open>std::numeric_limits<float>::max()\<close>, that is \<open>(2\<^sup>2\<^sup>4 - 1) \<sdot> 2\<^sup>1\<^sup>0\<^sup>4\<close>.\<close>

definition float_max :: real where
  "float_max = 340282346638528859811704183484516925440"

definition medioid :: "matrix \<Rightarrow> nat" where
  "medioid P =
     (let n = num_cols P;
          centroid = map (\<lambda>i. sum_list (map (\<lambda>j. P ! j ! i) [0..<n]) / real n) [0..<length (P ! 0)]
      in snd (fold (\<lambda>i (min_score, med).
                      let score = sum_of_squares (P ! i) centroid
                      in if score < min_score then (score, i) else (min_score, med))
                [0..<n] (float_max, 0)))"

subsection \<open>\<open>vamana_index\<close> and \<open>train\<close>\<close>

text \<open>
  The members \<open>feature_vectors_\<close>, \<open>dimension_\<close>, \<open>num_vectors_\<close>, \<open>L_build_\<close>,
  \<open>R_max_degree_\<close>, \<open>B_backtrack_\<close>, \<open>alpha_min_\<close>, \<open>alpha_max_\<close>, \<open>graph_\<close> and \<open>medioid_\<close>,
  with the prefix \<open>vi_\<close> in place of the trailing underscore. \<open>id_type\<close> is \<open>uint64_t\<close> and
  \<open>feature_type\<close> is \<open>float\<close>, as in the tests.
\<close>

record vamana_index =
  vi_feature_vectors :: matrix
  vi_dimension :: nat
  vi_num_vectors :: nat
  vi_L_build :: nat
  vi_R_max_degree :: nat
  vi_B_backtrack :: nat
  vi_alpha_min :: real
  vi_alpha_max :: real
  vi_graph :: adj_list
  vi_medioid :: nat

text \<open>\<open>vamana_index(num_nodes, L, R, B)\<close>.\<close>

definition vamana_index_new :: "nat \<Rightarrow> nat \<Rightarrow> nat \<Rightarrow> nat \<Rightarrow> vamana_index" where
  "vamana_index_new num_nodes L R B =
     \<lparr>vi_feature_vectors = [], vi_dimension = 0, vi_num_vectors = num_nodes, vi_L_build = L,
      vi_R_max_degree = R, vi_B_backtrack = (if B = 0 then L else B), vi_alpha_min = 1,
      vi_alpha_max = 12 / 10, vi_graph = adj_list_new num_nodes, vi_medioid = 0\<rparr>"

text \<open>
  Lines 579--583: \<open>tmp\<close> is constructed with \<open>out_degree(j) + 1\<close> value-initialised elements,
  then \<open>p\<close> and the out-neighbours of \<open>j\<close> are pushed behind them.
\<close>

definition backlink_tmp :: "adj_list \<Rightarrow> nat \<Rightarrow> nat \<Rightarrow> nat list" where
  "backlink_tmp graph p j =
     replicate (out_degree graph j + 1) 0 @ [p] @ map snd (out_edges graph j)"

text \<open>Lines 585--600: prune \<open>j\<close> over \<open>tmp\<close>, or add the edge from \<open>j\<close> back to \<open>p\<close>.\<close>

definition backlink ::
  "open_choices \<Rightarrow> matrix \<Rightarrow> real \<Rightarrow> nat \<Rightarrow> nat \<Rightarrow> nat \<Rightarrow> adj_list \<Rightarrow> (vamana_error + adj_list) option" where
  "backlink oc db alpha R p j graph =
     (let tmp = backlink_tmp graph p j
      in if length tmp > R then robust_prune oc graph db j tmp alpha R
         else Some (Inr (add_edge oc graph j p (sum_of_squares (db ! p) (db ! j)))))"

text \<open>
  The loop over \<open>graph_.out_edges(p)\<close>. Its body rewrites the list of \<open>j\<close> only, and \<open>j\<close> is
  not \<open>p\<close> after \<open>robust_prune\<close>, so the list of \<open>p\<close> is the one the loop started with.
\<close>

fun backlinks ::
  "open_choices \<Rightarrow> matrix \<Rightarrow> real \<Rightarrow> nat \<Rightarrow> nat \<Rightarrow> nat list \<Rightarrow> adj_list \<Rightarrow> (vamana_error + adj_list) option" where
  "backlinks oc db alpha R p [] graph = Some (Inr graph)"
| "backlinks oc db alpha R p (j # js) graph =
     (case backlink oc db alpha R p j graph of
        Some (Inr graph') \<Rightarrow> backlinks oc db alpha R p js graph'
      | failure \<Rightarrow> failure)"

text \<open>The body of the loop over \<open>p\<close>: lines 555--602.\<close>

definition train_node ::
  "open_choices \<Rightarrow> matrix \<Rightarrow> nat \<Rightarrow> nat \<Rightarrow> nat \<Rightarrow> real \<Rightarrow> nat \<Rightarrow> adj_list \<Rightarrow> (vamana_error + adj_list) option" where
  "train_node oc db med L R alpha p graph =
     (case greedy_search oc graph db med (db ! p) 1 L of
        None \<Rightarrow> None
      | Some (Inl e) \<Rightarrow> Some (Inl e)
      | Some (Inr (top_k_scores, top_k, visited)) \<Rightarrow>
          (case robust_prune oc graph db p visited alpha R of
             Some (Inr graph') \<Rightarrow> backlinks oc db alpha R p (map snd (out_edges graph' p)) graph'
           | failure \<Rightarrow> failure))"

fun train_nodes ::
  "open_choices \<Rightarrow> matrix \<Rightarrow> nat \<Rightarrow> nat \<Rightarrow> nat \<Rightarrow> real \<Rightarrow> nat list \<Rightarrow> adj_list \<Rightarrow> (vamana_error + adj_list) option" where
  "train_nodes oc db med L R alpha [] graph = Some (Inr graph)"
| "train_nodes oc db med L R alpha (p # ps) graph =
     (case train_node oc db med L R alpha p graph of
        Some (Inr graph') \<Rightarrow> train_nodes oc db med L R alpha ps graph'
      | failure \<Rightarrow> failure)"

text \<open>\<open>train\<close>, with the single pass at \<open>alpha_max_\<close>.\<close>

definition train :: "open_choices \<Rightarrow> vamana_index \<Rightarrow> matrix \<Rightarrow> (vamana_error + vamana_index) option" where
  "train oc idx training_set =
     (let idx1 = idx\<lparr>vi_feature_vectors := training_set,
                     vi_dimension := num_rows training_set,
                     vi_num_vectors := num_cols training_set,
                     vi_graph := adj_list_new (num_cols training_set),
                     vi_medioid := medioid training_set\<rparr>
      in case train_nodes oc training_set (vi_medioid idx1) (vi_L_build idx1) (vi_R_max_degree idx1)
                (vi_alpha_max idx1) [0..<vi_num_vectors idx1] (vi_graph idx1) of
           None \<Rightarrow> None
         | Some (Inl e) \<Rightarrow> Some (Inl e)
         | Some (Inr graph) \<Rightarrow> Some (Inr (idx1\<lparr>vi_graph := graph\<rparr>)))"

section \<open>Persistence of the Vamana index (vamana.h)\<close>

subsection \<open>The array store\<close>

text \<open>
  Modelled from the spec: the array store is an external collaborator, ``an opaque typed
  blob store''. A store maps URIs to objects: a group with its typed key/value metadata and
  its member names, or an array with its contents. Groups and arrays are directories of the
  file system, so \<open>VFS::is_dir\<close> holds of every URI that has an object, and
  \<open>VFS::remove_dir\<close> removes the object and everything below it. \<open>index_type\<close> is
  \<open>uint32_t\<close>, the default of the class template.
\<close>

datatype meta_value = UInt64 nat | Float32 real

datatype object =
  Group "(string \<times> meta_value) list" "string list"
| MatrixArray matrix
| ScoreArray "real list"
| IdArray "nat list"
| IndexArray "32 word list"

type_synonym store = "string \<Rightarrow> object option"

definition is_dir :: "store \<Rightarrow> string \<Rightarrow> bool" where
  "is_dir st uri \<longleftrightarrow> st uri \<noteq> None"

definition remove_dir :: "store \<Rightarrow> string \<Rightarrow> store" where
  "remove_dir st uri =
     (\<lambda>u. if u = uri \<or> take (Suc (length uri)) u = uri @ ''/'' then None else st u)"

definition group_create :: "store \<Rightarrow> string \<Rightarrow> store" where
  "group_create st uri = st(uri \<mapsto> Group [] [])"

definition put_metadata :: "string \<Rightarrow> string \<times> meta_value \<Rightarrow> store \<Rightarrow> store" where
  "put_metadata uri entry st =
     (case st uri of
        Some (Group md members) \<Rightarrow> st(uri \<mapsto> Group (AList.update (fst entry) (snd entry) md) members)
      | _ \<Rightarrow> st)"

definition add_member :: "string \<Rightarrow> string \<Rightarrow> store \<Rightarrow> store" where
  "add_member uri name st =
     (case st uri of
        Some (Group md members) \<Rightarrow> st(uri \<mapsto> Group md (members @ [name]))
      | _ \<Rightarrow> st)"

definition write_array :: "string \<Rightarrow> object \<Rightarrow> store \<Rightarrow> store" where
  "write_array uri array st = st(uri \<mapsto> array)"

subsection \<open>\<open>write_index\<close>\<close>

text \<open>The table \<open>metadata\<close> of lines 741--750, with the values of the members it points to.\<close>

definition metadata :: "vamana_index \<Rightarrow> (string \<times> meta_value) list" where
  "metadata idx =
     [(''dimension'', UInt64 (vi_dimension idx)),
      (''ntotal'', UInt64 (vi_num_vectors idx)),
      (''L'', UInt64 (vi_L_build idx)),
      (''R'', UInt64 (vi_R_max_degree idx)),
      (''B'', UInt64 (vi_B_backtrack idx)),
      (''alpha_min'', Float32 (vi_alpha_min idx)),
      (''alpha_max'', Float32 (vi_alpha_max idx)),
      (''medioid'', UInt64 (vi_medioid idx))]"

text \<open>
  Lines 798--811: the three arrays are allocated, then filled node by node. \<open>edge_offset\<close>
  is a \<open>size_t\<close>; storing it into \<open>adj_index\<close> converts it to \<open>index_type\<close>, that is modulo
  \<open>2\<^sup>3\<^sup>2\<close>.
\<close>

record csr =
  adj_scores :: "real list"
  adj_ids :: "nat list"
  adj_index :: "32 word list"
  edge_offset :: nat

definition csr_edge :: "entry \<Rightarrow> csr \<Rightarrow> csr" where
  "csr_edge e c =
     c\<lparr>adj_scores := (adj_scores c)[edge_offset c := fst e],
       adj_ids := (adj_ids c)[edge_offset c := snd e],
       edge_offset := Suc (edge_offset c)\<rparr>"

definition csr_node :: "adj_list \<Rightarrow> nat \<Rightarrow> csr \<Rightarrow> csr" where
  "csr_node graph i c =
     fold csr_edge (out_edges graph i) (c\<lparr>adj_index := (adj_index c)[i := of_nat (edge_offset c)]\<rparr>)"

definition csr_of :: "adj_list \<Rightarrow> csr" where
  "csr_of graph =
     (let c0 = \<lparr>adj_scores = replicate (num_edges graph) 0,
                adj_ids = replicate (num_edges graph) 0,
                adj_index = replicate (num_vertices graph + 1) 0,
                edge_offset = 0\<rparr>;
          c = fold (csr_node graph) [0..<num_vertices graph] c0
      in c\<lparr>adj_index := (adj_index c)[length (adj_index c) - 1 := of_nat (edge_offset c)]\<rparr>)"

text \<open>
  \<open>write_index(group_uri, overwrite)\<close>. The function reads the index and writes the store;
  the result is the returned flag, the index as the call leaves it, and the store.
\<close>

definition write_index :: "vamana_index \<Rightarrow> string \<Rightarrow> bool \<Rightarrow> store \<Rightarrow> bool \<times> vamana_index \<times> store" where
  "write_index idx group_uri overwrite st =
     (if is_dir st group_uri \<and> overwrite = False then (False, idx, st)
      else
        let st1 = (if is_dir st group_uri then remove_dir st group_uri else st);
            st2 = group_create st1 group_uri;
            st3 = fold (put_metadata group_uri) (metadata idx) st2;
            st4 = add_member group_uri ''feature_vectors''
                    (write_array (group_uri @ ''/feature_vectors'')
                       (MatrixArray (vi_feature_vectors idx)) st3);
            c = csr_of (vi_graph idx);
            st5 = add_member group_uri ''adj_scores''
                    (write_array (group_uri @ ''/adj_scores'') (ScoreArray (adj_scores c)) st4);
            st6 = add_member group_uri ''adj_ids''
                    (write_array (group_uri @ ''/adj_ids'') (IdArray (adj_ids c)) st5);
            st7 = add_member group_uri ''adj_index''
                    (write_array (group_uri @ ''/adj_index'') (IndexArray (adj_index c)) st6)
        in (True, idx, st7))"

subsection \<open>The constructor \<open>vamana_index(ctx, group_uri)\<close>\<close>

definition sum_bind :: "'e + 'a \<Rightarrow> ('a \<Rightarrow> 'e + 'b) \<Rightarrow> 'e + 'b" where
  "sum_bind r f = (case r of Inl e \<Rightarrow> Inl e | Inr x \<Rightarrow> f x)"

text \<open>
  One pass of the loop over the metadata table, for a member of type \<open>uint64_t\<close> and for a
  member of type \<open>float\<close>. A missing key throws. The source copies the stored value with its
  stored datatype; when that is not the datatype of the member the copy reinterprets the
  member's bytes, which is outside this model and stops it.
\<close>

definition get_uint64 :: "(string \<times> meta_value) list \<Rightarrow> string \<Rightarrow> vamana_error + nat" where
  "get_uint64 md name =
     (case map_of md name of
        None \<Rightarrow> Inl (MissingMetadata name)
      | Some (UInt64 v) \<Rightarrow> Inr v
      | Some (Float32 v) \<Rightarrow> Inl (MetadataTypeMismatch name))"

definition get_float32 :: "(string \<times> meta_value) list \<Rightarrow> string \<Rightarrow> vamana_error + real" where
  "get_float32 md name =
     (case map_of md name of
        None \<Rightarrow> Inl (MissingMetadata name)
      | Some (Float32 v) \<Rightarrow> Inr v
      | Some (UInt64 v) \<Rightarrow> Inl (MetadataTypeMismatch name))"

text \<open>
  Lines 495--501: \<open>graph_.add_edge(i, adj_ids[j], adj_scores[j])\<close> for \<open>j\<close> from
  \<open>adj_index[i]\<close> up to \<open>adj_index[i + 1]\<close>. A read outside an array is undefined behaviour
  in the source and stops the model.
\<close>

fun read_edges ::
  "open_choices \<Rightarrow> nat \<Rightarrow> nat list \<Rightarrow> nat list \<Rightarrow> real list \<Rightarrow> adj_list \<Rightarrow> vamana_error + adj_list" where
  "read_edges oc i [] ids scs graph = Inr graph"
| "read_edges oc i (j # js) ids scs graph =
     (if j < length ids \<and> j < length scs
      then read_edges oc i js ids scs (add_edge oc graph i (ids ! j) (scs ! j))
      else Inl ArrayOutOfBounds)"

fun read_nodes ::
  "open_choices \<Rightarrow> nat list \<Rightarrow> nat list \<Rightarrow> real list \<Rightarrow> 32 word list \<Rightarrow> adj_list \<Rightarrow>
   vamana_error + adj_list" where
  "read_nodes oc [] ids scs index graph = Inr graph"
| "read_nodes oc (i # is) ids scs index graph =
     (if Suc i < length index
      then sum_bind (read_edges oc i [unat (index ! i)..<unat (index ! Suc i)] ids scs graph)
             (read_nodes oc is ids scs index)
      else Inl ArrayOutOfBounds)"

definition read_index :: "open_choices \<Rightarrow> store \<Rightarrow> string \<Rightarrow> vamana_error + vamana_index" where
  "read_index oc st group_uri =
     (case st (group_uri @ ''/feature_vectors'') of
        Some (MatrixArray feature_vectors) \<Rightarrow>
          (case st group_uri of
             Some (Group md members) \<Rightarrow>
               sum_bind (get_uint64 md ''dimension'') (\<lambda>dimension.
               sum_bind (get_uint64 md ''ntotal'') (\<lambda>ntotal.
               sum_bind (get_uint64 md ''L'') (\<lambda>L.
               sum_bind (get_uint64 md ''R'') (\<lambda>R.
               sum_bind (get_uint64 md ''B'') (\<lambda>B.
               sum_bind (get_float32 md ''alpha_min'') (\<lambda>alpha_min.
               sum_bind (get_float32 md ''alpha_max'') (\<lambda>alpha_max.
               sum_bind (get_uint64 md ''medioid'') (\<lambda>med.
                 if ntotal \<noteq> num_cols feature_vectors then Inl AssertionFailure
                 else
                   (case (st (group_uri @ ''/adj_scores''), st (group_uri @ ''/adj_ids''),
                          st (group_uri @ ''/adj_index'')) of
                      (Some (ScoreArray scs), Some (IdArray ids), Some (IndexArray index)) \<Rightarrow>
                        sum_bind (read_nodes oc [0..<ntotal] ids scs index (adj_list_new ntotal))
                          (\<lambda>graph.
                             Inr \<lparr>vi_feature_vectors = feature_vectors, vi_dimension = dimension,
                                  vi_num_vectors = ntotal, vi_L_build = L, vi_R_max_degree = R,
                                  vi_B_backtrack = B, vi_alpha_min = alpha_min,
                                  vi_alpha_max = alpha_max, vi_graph = graph, vi_medioid = med\<rparr>)
                    | _ \<Rightarrow> Inl (MissingArray (group_uri @ ''/adj_'')))))))))))
           | _ \<Rightarrow> Inl (MissingArray group_uri))
      | _ \<Rightarrow> Inl (MissingArray (group_uri @ ''/feature_vectors'')))"

section \<open>Quantities and invariants of the proofs\<close>

text \<open>
  The invariant of the seeding loop of \<open>kmeans_pp\<close> when it starts round \<open>i\<close>: the first \<open>i\<close>
  centroids are the picked training vectors, the picks are distinct, every vector not picked
  has a positive weight, and every pick but the last has weight zero.
\<close>

definition pp_inv :: "matrix \<Rightarrow> nat \<Rightarrow> nat \<Rightarrow> matrix \<times> real list \<times> pp_trace \<Rightarrow> bool" where
  "pp_inv ts K i st \<longleftrightarrow>
     (case st of (cents, dists, tr) \<Rightarrow>
        1 \<le> i \<and> i \<le> K \<and> length cents = K \<and> length dists = length ts \<and>
        length (picked tr) = i \<and>
        take i cents = map (\<lambda>p. ts ! p) (picked tr) \<and>
        (\<forall>p \<in> set (picked tr). p < length ts) \<and>
        distinct (picked tr) \<and>
        (\<forall>j < length ts. 0 \<le> dists ! j) \<and>
        (\<forall>p \<in> set (butlast (picked tr)). dists ! p = 0) \<and>
        (\<forall>j < length ts. j \<notin> set (picked tr) \<longrightarrow> 0 < dists ! j) \<and>
        length (drawn_from tr) = i - 1 \<and>
        (\<forall>t < i - 1. \<forall>u \<le> t. drawn_from tr ! t ! (picked tr ! u) = 0))"

text \<open>The value of \<open>edge_offset\<close> when \<open>write_index\<close> reaches node \<open>i\<close>.\<close>

definition edges_before :: "adj_list \<Rightarrow> nat \<Rightarrow> nat" where
  "edges_before graph i = sum_list (map length (take i graph))"

text \<open>The invariant of the loop of \<open>write_index\<close> over the nodes, at the start of round \<open>n\<close>.\<close>

definition csr_inv :: "adj_list \<Rightarrow> nat \<Rightarrow> csr \<Rightarrow> bool" where
  "csr_inv graph n c \<longleftrightarrow>
     edge_offset c = edges_before graph n \<and>
     length (adj_scores c) = num_edges graph \<and>
     length (adj_ids c) = num_edges graph \<and>
     length (adj_index c) = Suc (length graph) \<and>
     take (edges_before graph n) (adj_scores c) = concat (map (map fst) (take n graph)) \<and>
     take (edges_before graph n) (adj_ids c) = concat (map (map snd) (take n graph)) \<and>
     take n (adj_index c) = map (\<lambda>i. of_nat (edges_before graph i)) [0..<n]"

text \<open>
  What every graph built by \<open>add_edge\<close> and \<open>clear\<close> from \<open>adj_list(n)\<close> satisfies: it has
  \<open>n\<close> nodes and, when \<open>add_edge\<close> drops an edge to a target that is present, no node has a
  target twice.
\<close>

definition graph_inv :: "open_choices \<Rightarrow> nat \<Rightarrow> adj_list \<Rightarrow> bool" where
  "graph_inv oc n graph \<longleftrightarrow>
     length graph = n \<and> (drop_duplicate_edge oc \<longrightarrow> (\<forall>es \<in> set graph. distinct (map snd es)))"

text \<open>
  The graph that \<open>train\<close> has built from \<open>N\<close> equal vectors with \<open>L = R = 1\<close> when it
  reaches node \<open>p\<close>: every node before \<open>p\<close> points to node 0, and node 0 points to the
  node before \<open>p\<close>.
\<close>

definition star_graph :: "nat \<Rightarrow> nat \<Rightarrow> adj_list" where
  "star_graph N p = map (\<lambda>i. if i = 0 then (if p \<le> 1 then [] else [(0, p - 1)])
                        else if i < p then [(0, 0)] else []) [0..<N]"

chapter \<open>Part II: the properties\<close>

section \<open>The scoring kernel\<close>

lemma sum_of_squares_nonneg: "0 \<le> sum_of_squares a b"
  unfolding sum_of_squares_def by (rule sum_list_nonneg) auto

lemma sum_of_squares_self: "sum_of_squares a a = 0"
  unfolding sum_of_squares_def by (induction a) simp_all

lemma sum_of_squares_Cons:
  "sum_of_squares (x # xs) (y # ys) = (x - y)\<^sup>2 + sum_of_squares xs ys"
  by (simp add: sum_of_squares_def)

lemma sum_of_squares_eq_0:
  "length a = length b \<Longrightarrow> sum_of_squares a b = 0 \<Longrightarrow> a = b"
proof (induction a b rule: list_induct2)
  case Nil
  then show ?case by simp
next
  case (Cons x xs y ys)
  have "0 \<le> (x - y)\<^sup>2" "0 \<le> sum_of_squares xs ys"
    by (simp_all add: sum_of_squares_nonneg)
  with Cons.prems have "(x - y)\<^sup>2 = 0" "sum_of_squares xs ys = 0"
    by (simp_all add: sum_of_squares_Cons add_nonneg_eq_0_iff)
  with Cons.IH show ?case by simp
qed

lemma sum_of_squares_pos:
  "length a = length b \<Longrightarrow> a \<noteq> b \<Longrightarrow> 0 < sum_of_squares a b"
  using sum_of_squares_eq_0[of a b] sum_of_squares_nonneg[of a b] by fastforce

section \<open>Lloyd iterations: a centroid with no vectors\<close>

lemma for_cols_length: "length (for_cols n body M) = length M"
  unfolding for_cols_def by (induction n) simp_all

lemma for_cols_nth:
  "j < length M \<Longrightarrow> for_cols n body M ! j = (if j < n then body j (M ! j) else M ! j)"
proof (induction n)
  case 0
  then show ?case by (simp add: for_cols_def)
next
  case (Suc n)
  have step: "for_cols (Suc n) body M = (for_cols n body M)[n := body n (for_cols n body M ! n)]"
    by (simp add: for_cols_def)
  show ?case
  proof (cases "j = n")
    case True
    with Suc show ?thesis by (simp add: step for_cols_length)
  next
    case False
    with Suc show ?thesis by (auto simp: step for_cols_length)
  qed
qed

lemma divide_by_degree_zero:
  "degrees ! j = 0 \<Longrightarrow> divide_by_degree dimension degrees j centroid = centroid"
  unfolding divide_by_degree_def by (induction dimension) simp_all

lemma accumulate_fold_length:
  "fold (accumulate_one d ts parts) is (c, dg) = (c', dg') \<Longrightarrow>
   length c' = length c \<and> length dg' = length dg"
proof (induction "is" arbitrary: c dg)
  case Nil
  then show ?case by simp
next
  case (Cons i "is")
  obtain c1 dg1 where one: "accumulate_one d ts parts i (c, dg) = (c1, dg1)"
    by (cases "accumulate_one d ts parts i (c, dg)")
  then have "length c1 = length c" "length dg1 = length dg"
    by (auto simp: accumulate_one_def Let_def)
  moreover from Cons.prems one have "fold (accumulate_one d ts parts) is (c1, dg1) = (c', dg')"
    by simp
  ultimately show ?case using Cons.IH by metis
qed

lemma accumulate_fold_untouched:
  "fold (accumulate_one d ts parts) is (c, dg) = (c', dg') \<Longrightarrow> j < length dg \<Longrightarrow>
   dg' ! j = 0 \<Longrightarrow> c' ! j = c ! j \<and> dg ! j = 0"
proof (induction "is" arbitrary: c dg)
  case Nil
  then show ?case by simp
next
  case (Cons i "is")
  define c1 where "c1 = c[parts ! i := map (\<lambda>k. c ! (parts ! i) ! k + ts ! i ! k) [0..<d]]"
  define dg1 where "dg1 = dg[parts ! i := dg ! (parts ! i) + 1]"
  have one: "accumulate_one d ts parts i (c, dg) = (c1, dg1)"
    by (simp add: accumulate_one_def Let_def c1_def dg1_def)
  with Cons.prems have rest: "fold (accumulate_one d ts parts) is (c1, dg1) = (c', dg')"
    by simp
  have len: "j < length dg1" using Cons.prems by (simp add: dg1_def)
  from Cons.IH[OF rest len Cons.prems(3)] have ih: "c' ! j = c1 ! j" "dg1 ! j = 0"
    by simp_all
  have neq: "parts ! i \<noteq> j"
  proof
    assume "parts ! i = j"
    then have "dg1 ! j = dg ! j + 1" using Cons.prems(2) by (simp add: dg1_def)
    with ih(2) show False by simp
  qed
  then show ?case using ih by (simp add: c1_def dg1_def)
qed


lemma train_iter_example:
  "train_iter \<lparr>km_dimension = 1, km_nlist = 2, km_max_iter = 1, km_tol = 0, km_nthreads = 1,
      km_centroids = [[1], [5]]\<rparr> [[1]] =
   (\<lparr>km_dimension = 1, km_nlist = 2, km_max_iter = 1, km_tol = 0, km_nthreads = 1,
      km_centroids = [[1], [0]]\<rparr>, [1, 0])"
  by code_simp

text \<open>
  C2, as amended. In a Lloyd iteration of \<open>train_no_init\<close>, a centroid to which no vector
  is assigned (its degree counter is 0 when the pass ends) is the zero vector of its
  dimension after the pass: the pass resets every centroid to zero before it sums, and the
  division is skipped for degree 0. The value the centroid had before the pass plays no part.
\<close>

theorem empty_centroid_is_zeroed:
  assumes "length (km_centroids idx) = km_nlist idx"
    and "j < km_nlist idx"
    and "train_iter idx training_set = (idx', degrees)"
    and "degrees ! j = 0"
  shows "km_centroids idx' ! j = replicate (length (km_centroids idx ! j)) 0"
proof -
  define parts where "parts = qv_partition (km_centroids idx) training_set (km_nthreads idx)"
  define zeroed where "zeroed = for_cols (km_nlist idx) (\<lambda>j c. replicate (length c) 0) (km_centroids idx)"
  obtain summed dg where acc:
    "accumulate (km_dimension idx) training_set parts (zeroed, replicate (km_nlist idx) 0) = (summed, dg)"
    by (cases "accumulate (km_dimension idx) training_set parts (zeroed, replicate (km_nlist idx) 0)")
  from assms(3) acc have res:
    "idx' = idx\<lparr>km_centroids := for_cols (km_nlist idx) (divide_by_degree (km_dimension idx) dg) summed\<rparr>"
    "degrees = dg"
    by (auto simp: train_iter_def Let_def parts_def zeroed_def)
  have fold_eq: "fold (accumulate_one (km_dimension idx) training_set parts) [0..<num_cols training_set]
      (zeroed, replicate (km_nlist idx) 0) = (summed, dg)"
    using acc by (simp add: accumulate_def)
  have lens: "length summed = length zeroed"
    using accumulate_fold_length[OF fold_eq] by simp
  have jlen: "j < length zeroed"
    using assms(1,2) by (simp add: zeroed_def for_cols_length)
  have "summed ! j = zeroed ! j"
    using accumulate_fold_untouched[OF fold_eq] assms(2,4) res(2) by simp
  also have "\<dots> = replicate (length (km_centroids idx ! j)) 0"
    using assms(1,2) by (simp add: zeroed_def for_cols_nth)
  finally have sj: "summed ! j = replicate (length (km_centroids idx ! j)) 0" .
  have "km_centroids idx' ! j = divide_by_degree (km_dimension idx) dg j (summed ! j)"
    using jlen lens assms(2) by (simp add: res(1) for_cols_nth)
  also have "\<dots> = summed ! j"
    using assms(4) res(2) by (simp add: divide_by_degree_zero)
  finally show ?thesis using sj by simp
qed


theorem empty_centroid_is_zeroed_witness:
  "km_centroids (fst (train_iter \<lparr>km_dimension = 1, km_nlist = 2, km_max_iter = 1, km_tol = 0,
      km_nthreads = 1, km_centroids = [[1], [5]]\<rparr> [[1]])) ! 1 = [0]"
proof -
  let ?idx = "\<lparr>km_dimension = 1, km_nlist = 2, km_max_iter = 1, km_tol = 0,
      km_nthreads = 1, km_centroids = [[1], [5::real]]\<rparr>"
  let ?r = "train_iter ?idx [[1]]"
  have h1: "length (km_centroids ?idx) = km_nlist ?idx" by simp
  have h2: "1 < km_nlist ?idx" by simp
  have h3: "?r = (fst ?r, snd ?r)" by (rule prod.collapse[symmetric])
  have h4: "snd ?r ! 1 = 0" unfolding train_iter_example by simp
  from empty_centroid_is_zeroed[OF h1 h2 h3 h4] show ?thesis by simp
qed

text \<open>
  The claim as stated fails: with centroids \<open>[1]\<close> and \<open>[5]\<close> and the single training
  vector \<open>[1]\<close>, centroid 1 receives no vector, and the pass turns it from \<open>[5]\<close> into
  \<open>[0]\<close>.
\<close>

theorem empty_centroid_changes_counterexample:
  "snd (train_iter \<lparr>km_dimension = 1, km_nlist = 2, km_max_iter = 1, km_tol = 0, km_nthreads = 1,
      km_centroids = [[1], [5]]\<rparr> [[1]]) ! 1 = 0 \<and>
   km_centroids (fst (train_iter \<lparr>km_dimension = 1, km_nlist = 2, km_max_iter = 1, km_tol = 0,
      km_nthreads = 1, km_centroids = [[1], [5]]\<rparr> [[1]])) ! 1 \<noteq>
   km_centroids \<lparr>km_dimension = 1, km_nlist = 2, km_max_iter = 1, km_tol = 0, km_nthreads = 1,
      km_centroids = [[1], [5]]\<rparr> ! 1"
  unfolding train_iter_example by simp

section \<open>k-means++ seeding picks distinct training vectors\<close>

lemma double_max_value: "double_max = (2 - 1 / 2 ^ 52) * 2 ^ 1023"
  by (simp add: double_max_def)

lemma double_max_pos: "0 < double_max / 8"
  by (simp add: double_max_def)

lemma first_positive_ok: "discrete_distribution_ok (\<lambda>i. first_positive)"
proof -
  have "(\<exists>j < length w. 0 < w ! j) \<Longrightarrow> first_positive w < length w \<and> 0 < w ! first_positive w" for w
  proof (induction w)
    case Nil
    then show ?case by simp
  next
    case (Cons x xs)
    show ?case
    proof (cases "0 < x")
      case True
      then show ?thesis by simp
    next
      case False
      from Cons.prems obtain j where j: "j < length (x # xs)" "0 < (x # xs) ! j" by blast
      with False have "j \<noteq> 0" by (cases j) auto
      then obtain j' where "j = Suc j'" by (cases j) auto
      with j have "\<exists>j < length xs. 0 < xs ! j" by auto
      with Cons.IH False show ?thesis by simp
    qed
  qed
  then show ?thesis unfolding discrete_distribution_ok_def by blast
qed

lemma pp_step:
  assumes len: "\<forall>v \<in> set ts. length v = d"
    and dist: "distinct ts"
    and KN: "K \<le> length ts"
    and draw: "discrete_distribution_ok draw"
    and inv: "pp_inv ts K i (cents, dists, tr)"
    and iK: "i < K"
  defines "dists1 \<equiv> map (\<lambda>j. min (dists ! j) (sum_of_squares (ts ! j) (cents ! (i - 1)))) [0..<num_cols ts]"
  defines "next \<equiv> draw i dists1"
  shows "pp_inv ts K (Suc i)
           (cents[i := ts ! next], dists1[next := 0],
            tr\<lparr>picked := picked tr @ [next], drawn_from := drawn_from tr @ [dists1]\<rparr>)"
proof -
  let ?N = "length ts"
  let ?P = "picked tr"
  from inv have i1: "1 \<le> i" and lc: "length cents = K" and ld: "length dists = ?N"
    and lp: "length ?P = i" and tk: "take i cents = map (\<lambda>p. ts ! p) ?P"
    and pN: "\<forall>p \<in> set ?P. p < ?N" and dP: "distinct ?P"
    and d0: "\<forall>j < ?N. 0 \<le> dists ! j"
    and dz: "\<forall>p \<in> set (butlast ?P). dists ! p = 0"
    and dpos: "\<forall>j < ?N. j \<notin> set ?P \<longrightarrow> 0 < dists ! j"
    and ldf: "length (drawn_from tr) = i - 1"
    and hist: "\<forall>t < i - 1. \<forall>u \<le> t. drawn_from tr ! t ! (?P ! u) = 0"
    unfolding pp_inv_def by auto
  have Pne: "?P \<noteq> []" using lp i1 by auto
  have lastP: "last ?P = ?P ! (i - 1)" using Pne lp by (simp add: last_conv_nth)
  have "cents ! (i - 1) = take i cents ! (i - 1)" using i1 by simp
  also have "\<dots> = ts ! (?P ! (i - 1))" using tk lp i1 by simp
  finally have clast: "cents ! (i - 1) = ts ! last ?P" using lastP by simp
  have lastN: "last ?P < ?N" using pN Pne by simp
  have ld1: "length dists1 = ?N" by (simp add: dists1_def num_cols_def)
  have d1: "dists1 ! j = min (dists ! j) (sum_of_squares (ts ! j) (ts ! last ?P))" if "j < ?N" for j
    using that clast by (simp add: dists1_def num_cols_def)
  have F1: "0 \<le> dists1 ! j" if "j < ?N" for j
    using that d0 by (simp add: d1 sum_of_squares_nonneg)
  have F2: "dists1 ! p = 0" if "p \<in> set ?P" for p
  proof (cases "p = last ?P")
    case True
    then show ?thesis using lastN d0 by (simp add: d1 sum_of_squares_self)
  next
    case False
    have "p \<in> set (butlast ?P @ [last ?P])" using that Pne by simp
    then have "p \<in> set (butlast ?P) \<or> p = last ?P"
      unfolding set_append by auto
    with False have "p \<in> set (butlast ?P)" by simp
    then have "dists ! p = 0" using dz by simp
    moreover have "p < ?N" using that pN by simp
    ultimately show ?thesis using sum_of_squares_nonneg[of "ts ! p" "ts ! last ?P"] by (simp add: d1)
  qed
  have F3: "0 < dists1 ! j" if "j < ?N" "j \<notin> set ?P" for j
  proof -
    have "j \<noteq> last ?P" using that Pne by auto
    then have "ts ! j \<noteq> ts ! last ?P"
      using dist that(1) lastN by (simp add: nth_eq_iff_index_eq)
    moreover have "length (ts ! j) = length (ts ! last ?P)"
      using len that(1) lastN by simp
    ultimately have "0 < sum_of_squares (ts ! j) (ts ! last ?P)"
      by (simp add: sum_of_squares_pos)
    then show ?thesis using dpos that by (simp add: d1)
  qed
  have "card (set ?P) = i" using dP lp by (simp add: distinct_card)
  moreover have "set ?P \<subseteq> {..<?N}" using pN by auto
  ultimately have "set ?P \<noteq> {..<?N}" using iK KN by auto
  then obtain j where j: "j < ?N" "j \<notin> set ?P" using \<open>set ?P \<subseteq> {..<?N}\<close> by auto
  then have ex: "\<exists>j < length dists1. 0 < dists1 ! j" using F3 ld1 by auto
  have "draw i dists1 < length dists1 \<and> 0 < dists1 ! draw i dists1"
    using draw ex unfolding discrete_distribution_ok_def by blast
  then have nx: "next < ?N" "0 < dists1 ! next"
    using ld1 by (simp_all add: next_def)
  have nxP: "next \<notin> set ?P" using nx(2) F2 by force
  have tk': "take (Suc i) (cents[i := ts ! next]) = map (\<lambda>p. ts ! p) (?P @ [next])"
    using iK lc tk by (simp add: take_Suc_conv_app_nth)
  have hist': "(drawn_from tr @ [dists1]) ! t ! ((?P @ [next]) ! u) = 0" if "t < i" "u \<le> t" for t u
  proof (cases "t < i - 1")
    case True
    then show ?thesis using hist that ldf lp by (simp add: nth_append)
  next
    case False
    with that have "t = i - 1" by simp
    moreover have "u < i" using that by simp
    ultimately show ?thesis using ldf lp F2 by (simp add: nth_append)
  qed
  show ?thesis
    unfolding pp_inv_def
    using i1 iK lc ld1 lp tk' pN nx(1) dP nxP F1 F2 F3 ldf hist'
    by (auto simp: nth_list_update)
qed

lemma pp_loop_inv:
  assumes len: "\<forall>v \<in> set ts. length v = d"
    and dist: "distinct ts"
    and KN: "K \<le> length ts"
    and draw: "discrete_distribution_ok draw"
  shows "pp_inv ts K i st \<Longrightarrow> pp_inv ts K K (kmeans_pp_loop draw ts K i st)"
proof (induction "K - i" arbitrary: i st)
  case 0
  obtain cents dists tr where st: "st = (cents, dists, tr)" by (cases st) auto
  from 0 have "i = K" by (auto simp: pp_inv_def st)
  with 0 show ?case by (simp add: st)
next
  case (Suc n)
  obtain cents dists tr where st: "st = (cents, dists, tr)" by (cases st) auto
  from Suc have iK: "i < K" by simp
  have n: "n = K - Suc i" using Suc by simp
  note step = pp_step[OF len dist KN draw Suc.prems[unfolded st] iK]
  show ?case
    unfolding st
    by (subst kmeans_pp_loop.simps) (use iK Suc.hyps(1)[OF n step] in \<open>simp add: Let_def\<close>)
qed


text \<open>
  C7. Let the training set hold \<open>N\<close> pairwise distinct vectors of one dimension and let
  \<open>1 \<le> K \<le> N\<close>. Whatever the uniform draw (\<open>choice < N\<close>) and the weighted draws
  (any generator that meets the contract of \<open>std::discrete_distribution\<close>) return,
  \<open>kmeans_pp\<close> picks \<open>K\<close> training vectors: centroid \<open>i\<close> is the \<open>i\<close>-th picked vector, the
  picked indices are distinct, no two centroids are equal, and in every weighted draw each
  vector picked before it has weight 0, so it cannot be drawn again.
\<close>

theorem kmeans_pp_picks_distinct_training_vectors:
  assumes "\<forall>v \<in> set training_set. length v = d"
    and "distinct training_set"
    and "1 \<le> km_nlist idx"
    and "km_nlist idx \<le> num_cols training_set"
    and "length (km_centroids idx) = km_nlist idx"
    and "choice < num_cols training_set"
    and "discrete_distribution_ok draw"
    and "kmeans_pp choice draw idx training_set = (idx', tr)"
  shows "length (picked tr) = km_nlist idx \<and>
         (\<forall>p \<in> set (picked tr). p < num_cols training_set) \<and>
         km_centroids idx' = map (\<lambda>p. training_set ! p) (picked tr) \<and>
         distinct (picked tr) \<and>
         distinct (km_centroids idx') \<and>
         length (drawn_from tr) = km_nlist idx - 1 \<and>
         (\<forall>t < length (drawn_from tr). \<forall>u \<le> t. drawn_from tr ! t ! (picked tr ! u) = 0)"
proof -
  let ?K = "km_nlist idx"
  let ?st0 = "((km_centroids idx)[0 := training_set ! choice],
               replicate (num_cols training_set) (double_max / 8),
               \<lparr>picked = [choice], drawn_from = []\<rparr>)"
  have inv0: "pp_inv training_set ?K 1 ?st0"
    using assms(3,5,6) double_max_pos
    by (auto simp: pp_inv_def num_cols_def take_Suc_conv_app_nth less_imp_le)
  obtain cents dists where loop: "kmeans_pp_loop draw training_set ?K 1 ?st0 = (cents, dists, tr)"
    and idx': "idx' = idx\<lparr>km_centroids := cents\<rparr>"
    using assms(8) unfolding kmeans_pp_def Let_def by (auto split: prod.splits)
  have "pp_inv training_set ?K ?K (cents, dists, tr)"
    using pp_loop_inv[OF assms(1,2) _ assms(7) inv0] assms(4) loop by (simp add: num_cols_def)
  then have lc: "length cents = ?K" and lp: "length (picked tr) = ?K"
    and tk: "take ?K cents = map (\<lambda>p. training_set ! p) (picked tr)"
    and pN: "\<forall>p \<in> set (picked tr). p < length training_set" and dP: "distinct (picked tr)"
    and ldf: "length (drawn_from tr) = ?K - 1"
    and hist: "\<forall>t < ?K - 1. \<forall>u \<le> t. drawn_from tr ! t ! (picked tr ! u) = 0"
    unfolding pp_inv_def by auto
  have cents: "cents = map (\<lambda>p. training_set ! p) (picked tr)" using tk lc by simp
  have "inj_on (\<lambda>p. training_set ! p) (set (picked tr))"
    using assms(2) pN by (auto simp: inj_on_def nth_eq_iff_index_eq)
  then have "distinct cents" using dP by (simp add: cents distinct_map)
  then show ?thesis using lp pN cents dP ldf hist by (simp add: idx' num_cols_def)
qed


theorem kmeans_pp_picks_distinct_training_vectors_witness:
  "km_centroids (fst (kmeans_pp 1 (\<lambda>i. first_positive) (kmeans_index_new 1 2 10 0 1) [[0], [1], [3]]))
     = [[1], [0]] \<and>
   distinct (km_centroids (fst (kmeans_pp 1 (\<lambda>i. first_positive) (kmeans_index_new 1 2 10 0 1) [[0], [1], [3]]))) \<and>
   distinct (picked (snd (kmeans_pp 1 (\<lambda>i. first_positive) (kmeans_index_new 1 2 10 0 1) [[0], [1], [3]])))"
proof -
  let ?ts = "[[0], [1], [3::real]]"
  let ?idx = "kmeans_index_new 1 2 10 0 1"
  let ?r = "kmeans_pp 1 (\<lambda>i. first_positive) ?idx ?ts"
  have ev: "picked (snd ?r) = [1, 0]"
    by (simp add: kmeans_pp_def kmeans_index_new_def zero_matrix_def num_cols_def double_max_def
        sum_of_squares_def)
  have h1: "\<forall>v \<in> set ?ts. length v = 1" by simp
  have h2: "distinct ?ts" by simp
  have h3: "1 \<le> km_nlist ?idx" by (simp add: kmeans_index_new_def)
  have h4: "km_nlist ?idx \<le> num_cols ?ts" by (simp add: kmeans_index_new_def num_cols_def)
  have h5: "length (km_centroids ?idx) = km_nlist ?idx"
    by (simp add: kmeans_index_new_def zero_matrix_def)
  have h6: "1 < num_cols ?ts" by (simp add: num_cols_def)
  have h8: "?r = (fst ?r, snd ?r)" by (rule prod.collapse[symmetric])
  note res = kmeans_pp_picks_distinct_training_vectors[OF h1 h2 h3 h4 h5 h6 first_positive_ok h8]
  from res have c: "km_centroids (fst ?r) = map (\<lambda>p. ?ts ! p) (picked (snd ?r))"
    and dp: "distinct (picked (snd ?r))" and dc: "distinct (km_centroids (fst ?r))"
    by blast+
  from c have "km_centroids (fst ?r) = [[1], [0]]" unfolding ev by simp
  with dp dc show ?thesis by blast
qed

section \<open>Recall reporting\<close>

text \<open>
  C6. The driver sorts the whole result column but only the first \<open>k_nn\<close> entries of the
  ground-truth column, and then intersects with the whole ground-truth column. For
  \<open>k_nn = 2\<close>, the result column \<open>[3, 7]\<close> and a ground-truth column \<open>[1, 2, 7, 3]\<close> of four
  rows, the range handed to \<open>std::set_intersection\<close> is not sorted and the driver reports
  \<open>1/2\<close>; the formula of the spec gives 0 against the ground-truth top-2 and 1 against the
  whole ground-truth column.
\<close>

theorem recall_counts_past_sorted_prefix:
  "ivf_recall [[3, 7]] [[1, 2, 7, 3]] 2 = 1 / 2 \<and>
   spec_recall [[3, 7]] [take 2 [1, 2, 7, 3]] 2 = 0 \<and>
   spec_recall [[3, 7]] [[1, 2, 7, 3]] 2 = 1 \<and>
   \<not> sorted (sort (take 2 [1, 2, 7, 3::nat]) @ drop 2 [1, 2, 7, 3])"
  by (simp add: ivf_recall_def total_intersected_def intersect_column_def num_cols_def num_rows_def
      spec_recall_def)

section \<open>The vq kernel refuses two blocked operands\<close>

lemma score_and_insert_error:
  "score_and_insert oc k q db_vec n j slot ident st = Inl (e, c) \<Longrightarrow> e = OutOfBounds"
  by (auto simp: score_and_insert_def Let_def split: if_splits)

lemma sweep_queries_error:
  "sweep_queries oc k block_db block_q db q db_vec n i js st = Inl (e, c) \<Longrightarrow> e = OutOfBounds"
proof (induction js arbitrary: st)
  case Nil
  then show ?case by simp
next
  case (Cons j js)
  then show ?case
    by (auto split: sum.splits if_splits dest: score_and_insert_error)
qed

lemma sweep_db_error:
  "sweep_db oc k nthreads size_q block_db block_q db q is st = Inl (e, c) \<Longrightarrow> e = OutOfBounds"
proof (induction "is" arbitrary: st)
  case Nil
  then show ?case by simp
next
  case (Cons i "is")
  then show ?case
    by (auto split: sum.splits dest: sweep_queries_error)
qed

lemma vq_blocks_error:
  "vq_blocks oc k nthreads size_q block_db block_q db q st = Inl (e, c) \<Longrightarrow> e = OutOfBounds"
proof (induction oc k nthreads size_q block_db block_q db q st rule: vq_blocks.induct)
  case (1 oc k nthreads size_q block_db block_q db q st)
  show ?case
  proof (cases "sweep_db oc k nthreads size_q block_db block_q db q [0..<length (columns db)] st")
    case (Inl a)
    with "1.prems" show ?thesis
      by (cases a) (auto dest: sweep_db_error)
  next
    case (Inr st')
    with "1.prems" "1.IH"(1)[OF Inr] "1.IH"(2)[OF Inr] show ?thesis
      by (auto split: if_splits)
  qed
qed

lemma merge_entries_error:
  "merge_entries oc k j es tbl = Inl e \<Longrightarrow> e = OutOfBounds"
  by (induction es arbitrary: tbl) (auto simp: merge_entry_def split: sum.splits if_splits)

lemma merge_workers_error:
  "merge_workers oc k j ns tbl = Inl e \<Longrightarrow> e = OutOfBounds"
  by (induction ns arbitrary: tbl) (auto split: sum.splits if_splits dest: merge_entries_error)

lemma merge_queries_error:
  "merge_queries oc k nthreads js tbl = Inl e \<Longrightarrow> e = OutOfBounds"
  by (induction js arbitrary: tbl) (auto split: sum.splits dest: merge_workers_error)

lemma extract_top_k_error:
  "extract_top_k k nthreads q tbl = Inl e \<Longrightarrow> e = DivisionByZero"
  by (auto simp: extract_top_k_def split: if_splits)

lemma vq_query_heap_unblocked:
  assumes "\<not> (is_blocked db \<and> is_blocked q)"
  shows "fst (vq_query_heap oc db q k nthreads) \<noteq> Inl InvalidConfig"
proof
  assume a: "fst (vq_query_heap oc db q k nthreads) = Inl InvalidConfig"
  let ?st0 = "\<lparr>scores = replicate nthreads (replicate (length (columns q)) []), scored = 0\<rparr>"
  show False
  proof (cases "vq_blocks oc k nthreads (length (columns q)) (is_blocked db) (is_blocked q) db q ?st0")
    case (Inl ec)
    obtain e c where ec: "ec = (e, c)" by (cases ec)
    from vq_blocks_error[OF Inl[unfolded ec]] have "e = OutOfBounds" .
    with a assms Inl ec show False by (simp add: vq_query_heap_def Let_def)
  next
    case (Inr r)
    obtain db' q' st where r: "r = (db', q', st)" by (cases r)
    show False
    proof (cases "merge_queries oc k nthreads [0..<length (columns q')] (scores st)")
      case (Inl e)
      from merge_queries_error[OF Inl] have "e = OutOfBounds" .
      with a assms Inr r Inl show False by (simp add: vq_query_heap_def Let_def)
    next
      case (Inr tbl)
      with a assms \<open>vq_blocks oc k nthreads (length (columns q)) (is_blocked db) (is_blocked q) db q ?st0 = Inr r\<close> r
      have "extract_top_k k nthreads q' tbl = Inl InvalidConfig"
        by (simp add: vq_query_heap_def Let_def)
      from extract_top_k_error[OF this] show False by simp
    qed
  qed
qed

text \<open>
  C8. \<open>vq_query_heap\<close> fails with \<open>InvalidConfig\<close> exactly when the database and the query
  matrix are both blocked, and then it has computed no score and touched no heap (the count
  of scores is 0); when at most one of them is blocked the outcome is never
  \<open>InvalidConfig\<close>.
\<close>

theorem vq_query_heap_invalid_config_iff:
  "(fst (vq_query_heap oc db q k nthreads) = Inl InvalidConfig \<longleftrightarrow> is_blocked db \<and> is_blocked q) \<and>
   (vq_query_heap oc db q k nthreads = (Inl InvalidConfig, 0) \<longleftrightarrow> is_blocked db \<and> is_blocked q)"
proof -
  have both: "vq_query_heap oc db q k nthreads = (Inl InvalidConfig, 0)"
    if "is_blocked db \<and> is_blocked q"
    using that by (simp add: vq_query_heap_def)
  have one: "fst (vq_query_heap oc db q k nthreads) \<noteq> Inl InvalidConfig"
    if "\<not> (is_blocked db \<and> is_blocked q)"
    using that by (rule vq_query_heap_unblocked)
  show ?thesis
  proof (cases "is_blocked db \<and> is_blocked q")
    case True
    then show ?thesis using both by simp
  next
    case False
    with one have "fst (vq_query_heap oc db q k nthreads) \<noteq> Inl InvalidConfig" by simp
    moreover from this have "vq_query_heap oc db q k nthreads \<noteq> (Inl InvalidConfig, 0)"
      by (metis fst_conv)
    ultimately show ?thesis using False by simp
  qed
qed

section \<open>The open choices\<close>

lemma first_max_ok: "h \<noteq> [] \<Longrightarrow> first_max h < length h \<and> (\<forall>e \<in> set h. fst e \<le> fst (h ! first_max h))"
proof (induction h rule: first_max.induct)
  case 1
  then show ?case by simp
next
  case (2 e)
  then show ?case by simp
next
  case (3 e e' es)
  then show ?case by (auto simp: Let_def intro: order_trans less_imp_le)
qed

lemma first_min_ok: "h \<noteq> [] \<Longrightarrow> first_min h < length h \<and> (\<forall>e \<in> set h. fst (h ! first_min h) \<le> fst e)"
proof (induction h rule: first_min.induct)
  case 1
  then show ?case by simp
next
  case (2 e)
  then show ?case by simp
next
  case (3 e e' es)
  then show ?case by (auto simp: Let_def intro: order_trans less_imp_le)
qed

lemma stable_ties_ok: "choices_ok stable_ties"
  unfolding choices_ok_def stable_ties_def
  using first_max_ok first_min_ok by simp

lemma reversed_ties_ok: "choices_ok reversed_ties"
  unfolding choices_ok_def reversed_ties_def
  using first_max_ok first_min_ok by simp

section \<open>\<open>greedy_search\<close> asserts \<open>L \<ge> k\<close>\<close>

text \<open>
  C9. Whatever the graph, the database, the source and the query, a call of
  \<open>greedy_search\<close> with \<open>L < k_nn\<close> fails the assertion \<open>assert(L >= k_nn)\<close>, the first
  statement of the function, and returns no top-k result. (The assertion is compiled in
  unless \<open>NDEBUG\<close> is defined; the model takes it as compiled in.)
\<close>

theorem greedy_search_asserts_L_ge_k:
  "L < k_nn \<Longrightarrow> greedy_search oc graph db source query k_nn L = Some (Inl AssertionFailure)"
  by (simp add: greedy_search_def)

theorem greedy_search_asserts_L_ge_k_witness:
  "greedy_search stable_ties [[(1, 1)], [(1, 0)]] [[0], [1]] 0 [0] 2 1 = Some (Inl AssertionFailure)"
  using greedy_search_asserts_L_ge_k[of 1 2 stable_ties "[[(1, 1)], [(1, 0)]]" "[[0], [1]]" 0 "[0]"]
  by simp

section \<open>\<open>robust_prune\<close> leaves a bounded list without loops or duplicates\<close>

lemma min_element_in: "min_element e es \<in> set (e # es)"
  by (induction es arbitrary: e) (auto simp: Let_def)

lemma try_emplace_keeps:
  assumes "distinct (map fst m)" and "p \<notin> fst ` set m" and "\<forall>x \<in> set m. 0 \<le> snd x"
    and "k \<noteq> p" and "0 \<le> v"
  shows "distinct (map fst (try_emplace m k v)) \<and> p \<notin> fst ` set (try_emplace m k v) \<and>
         (\<forall>x \<in> set (try_emplace m k v). 0 \<le> snd x)"
  using assms by (auto simp: try_emplace_def)

lemma candidates_from_V_in:
  assumes "distinct (map fst m)" and "p \<notin> fst ` set m" and "\<forall>x \<in> set m. 0 \<le> snd x"
  shows "distinct (map fst (fold (\<lambda>v m. if v \<noteq> p then try_emplace m v (sum_of_squares (db ! v) (db ! p)) else m) V_in m)) \<and>
         p \<notin> fst ` set (fold (\<lambda>v m. if v \<noteq> p then try_emplace m v (sum_of_squares (db ! v) (db ! p)) else m) V_in m) \<and>
         (\<forall>x \<in> set (fold (\<lambda>v m. if v \<noteq> p then try_emplace m v (sum_of_squares (db ! v) (db ! p)) else m) V_in m). 0 \<le> snd x)"
  using assms
proof (induction V_in arbitrary: m)
  case Nil
  then show ?case by simp
next
  case (Cons v vs)
  show ?case
  proof (cases "v = p")
    case True
    with Cons show ?thesis by simp
  next
    case False
    from try_emplace_keeps[OF Cons.prems False sum_of_squares_nonneg[of "db ! v" "db ! p"]]
    have "distinct (map fst (try_emplace m v (sum_of_squares (db ! v) (db ! p))))"
      "p \<notin> fst ` set (try_emplace m v (sum_of_squares (db ! v) (db ! p)))"
      "\<forall>x \<in> set (try_emplace m v (sum_of_squares (db ! v) (db ! p))). 0 \<le> snd x"
      by blast+
    from Cons.IH[OF this] False show ?thesis by simp
  qed
qed

lemma candidates_from_out_edges:
  assumes "distinct (map fst m)" and "p \<notin> fst ` set m" and "\<forall>x \<in> set m. 0 \<le> snd x"
    and "\<forall>e \<in> set es. 0 \<le> fst e"
  shows "distinct (map fst (fold (\<lambda>(ss, pp) m. if pp \<noteq> p then try_emplace m pp ss else m) es m)) \<and>
         p \<notin> fst ` set (fold (\<lambda>(ss, pp) m. if pp \<noteq> p then try_emplace m pp ss else m) es m) \<and>
         (\<forall>x \<in> set (fold (\<lambda>(ss, pp) m. if pp \<noteq> p then try_emplace m pp ss else m) es m). 0 \<le> snd x)"
  using assms
proof (induction es arbitrary: m)
  case Nil
  then show ?case by simp
next
  case (Cons e es)
  obtain ss pp where e: "e = (ss, pp)" by (cases e)
  have rest: "\<forall>e \<in> set es. 0 \<le> fst e" using Cons.prems(4) by simp
  show ?case
  proof (cases "pp = p")
    case True
    with Cons.IH[OF Cons.prems(1-3) rest] show ?thesis by (simp add: e)
  next
    case False
    have "0 \<le> ss" using Cons.prems(4) by (simp add: e)
    from try_emplace_keeps[OF Cons.prems(1-3) False this]
    have "distinct (map fst (try_emplace m pp ss))"
      "p \<notin> fst ` set (try_emplace m pp ss)"
      "\<forall>x \<in> set (try_emplace m pp ss). 0 \<le> snd x"
      by blast+
    from Cons.IH[OF this rest] False show ?thesis by (simp add: e)
  qed
qed

lemma candidates_ok:
  assumes "choices_ok oc" and "\<forall>e \<in> set (out_edges graph p). 0 \<le> fst e"
  shows "distinct (map snd (candidates oc graph db p V_in)) \<and>
         p \<notin> snd ` set (candidates oc graph db p V_in) \<and>
         (\<forall>e \<in> set (candidates oc graph db p V_in). 0 \<le> fst e)"
proof -
  define m1 where "m1 = fold (\<lambda>v m. if v \<noteq> p then try_emplace m v (sum_of_squares (db ! v) (db ! p)) else m) V_in []"
  define m2 where "m2 = fold (\<lambda>(ss, pp) m. if pp \<noteq> p then try_emplace m pp ss else m) (out_edges graph p) m1"
  have c: "candidates oc graph db p V_in = map (\<lambda>(v, score). (score, v)) (map_order oc m2)"
    by (simp add: candidates_def Let_def m1_def m2_def)
  have "distinct (map fst m1) \<and> p \<notin> fst ` set m1 \<and> (\<forall>x \<in> set m1. 0 \<le> snd x)"
    unfolding m1_def by (rule candidates_from_V_in) simp_all
  then have "distinct (map fst m2) \<and> p \<notin> fst ` set m2 \<and> (\<forall>x \<in> set m2. 0 \<le> snd x)"
    unfolding m2_def using assms(2) by (intro candidates_from_out_edges) simp_all
  then have d2: "distinct (map fst m2)" and p2: "p \<notin> fst ` set m2" and n2: "\<forall>x \<in> set m2. 0 \<le> snd x"
    by blast+
  have ms: "mset (map_order oc m2) = mset m2"
    using assms(1) by (simp add: choices_ok_def)
  then have st: "set (map_order oc m2) = set m2" by (rule mset_eq_setD)
  have "mset (map fst (map_order oc m2)) = mset (map fst m2)" using ms by simp
  then have d3: "distinct (map fst (map_order oc m2))"
    using d2 by (metis mset_eq_imp_distinct_iff)
  have swap: "map snd (map (\<lambda>(v, score). (score, v)) xs) = map fst xs" for xs :: "(nat \<times> real) list"
    by (induction xs) auto
  have "distinct (map snd (map (\<lambda>(v, score). (score, v)) (map_order oc m2)))"
    using d3 by (simp only: swap)
  moreover have "p \<notin> snd ` set (map (\<lambda>(v, score). (score, v)) (map_order oc m2))"
    using p2 st by force
  moreover have "\<forall>e \<in> set (map (\<lambda>(v, score). (score, v)) (map_order oc m2)). 0 \<le> fst e"
    using n2 st by force
  ultimately show ?thesis unfolding c by blast
qed

lemma same_id_same_entry:
  "distinct (map snd V) \<Longrightarrow> x \<in> set V \<Longrightarrow> y \<in> set V \<Longrightarrow> snd x = snd y \<Longrightarrow> x = y"
  by (meson distinct_map inj_onD)

lemma out_edges_add_edge_new:
  assumes "p < length graph" and "q \<notin> snd ` set (out_edges graph p)"
  shows "out_edges (add_edge oc graph p q s) p = out_edges graph p @ [(s, q)]"
    and "length (add_edge oc graph p q s) = length graph"
  using assms by (simp_all add: add_edge_def out_edges_def)

lemma prune_loop_total:
  assumes "p < length graph"
    and "distinct (map snd V)" and "p \<notin> snd ` set V" and "\<forall>e \<in> set V. 0 \<le> fst e"
    and "out_degree graph p < R"
    and "distinct (map snd (out_edges graph p))"
    and "p \<notin> snd ` set (out_edges graph p)"
    and "snd ` set (out_edges graph p) \<inter> snd ` set V = {}"
  shows "\<exists>graph'. prune_loop oc db p alpha R graph V = Some (Inr graph') \<and>
           length graph' = length graph \<and>
           p \<notin> snd ` set (out_edges graph' p) \<and>
           distinct (map snd (out_edges graph' p)) \<and>
           out_degree graph' p \<le> R"
  using assms
proof (induction "length V" arbitrary: V graph rule: less_induct)
  case less
  show ?case
  proof (cases V)
    case Nil
    then show ?thesis
      using less.prems by (subst prune_loop.simps) (simp add: less_imp_le)
  next
    case (Cons e es)
    define m where "m = min_element e es"
    define graph1 where "graph1 = add_edge oc graph p (snd m) (fst m)"
    define V' where "V' = survivors db p alpha (snd m) V"
    have mV: "m \<in> set V" unfolding m_def Cons by (rule min_element_in)
    have mp: "snd m \<noteq> p" using mV less.prems(3) by force
    have mnew: "snd m \<notin> snd ` set (out_edges graph p)"
      using mV less.prems(8) by force
    have oe1: "out_edges graph1 p = out_edges graph p @ [m]"
      and len1: "length graph1 = length graph"
      unfolding graph1_def using out_edges_add_edge_new[OF less.prems(1) mnew] by simp_all
    have unfold: "prune_loop oc db p alpha R graph V =
        (if out_degree graph1 p = R then Some (Inr graph1)
         else prune_loop oc db p alpha R graph1 V')"
      by (subst prune_loop.simps) (simp add: Cons m_def[symmetric] graph1_def V'_def Let_def mp)
    have d1: "distinct (map snd (out_edges graph1 p))"
      using less.prems(6) mnew by (simp add: oe1)
    have p1: "p \<notin> snd ` set (out_edges graph1 p)"
      using less.prems(7) mp by (auto simp: oe1)
    have deg1: "out_degree graph1 p = Suc (out_degree graph p)"
      by (simp add: out_degree_def oe1)
    show ?thesis
    proof (cases "out_degree graph1 p = R")
      case True
      then show ?thesis using unfold len1 d1 p1 by simp
    next
      case False
      have "\<not> (\<not> alpha * sum_of_squares (db ! snd m) (db ! snd m) \<le> fst m \<and> snd m \<noteq> p)"
        using less.prems(4) mV by (simp add: sum_of_squares_self)
      then have mout: "m \<notin> set V'"
        unfolding V'_def survivors_def by (auto simp: case_prod_beta)
      have sub: "set V' \<subseteq> set V" unfolding V'_def survivors_def by auto
      have "length V' < length V"
        unfolding V'_def survivors_def
        using mV \<open>\<not> (\<not> alpha * sum_of_squares (db ! snd m) (db ! snd m) \<le> fst m \<and> snd m \<noteq> p)\<close>
        by (intro length_filter_less[of m]) (auto simp: case_prod_beta)
      moreover have "p < length graph1" using less.prems(1) len1 by simp
      moreover have "distinct (map snd V')"
        unfolding V'_def survivors_def using less.prems(2) by (rule distinct_map_filter)
      moreover have "p \<notin> snd ` set V'" using less.prems(3) sub by auto
      moreover have "\<forall>e \<in> set V'. 0 \<le> fst e" using less.prems(4) sub by auto
      moreover have "out_degree graph1 p < R" using less.prems(5) False deg1 by simp
      moreover have "snd ` set (out_edges graph1 p) \<inter> snd ` set V' = {}"
      proof -
        have "snd m \<notin> snd ` set V'"
        proof
          assume "snd m \<in> snd ` set V'"
          then obtain y where y: "y \<in> set V'" "snd y = snd m" by force
          with sub have "y \<in> set V" by auto
          from same_id_same_entry[OF less.prems(2) this mV y(2)] y(1) mout show False by simp
        qed
        moreover have "snd ` set (out_edges graph p) \<inter> snd ` set V' = {}"
          using less.prems(8) sub by auto
        ultimately show ?thesis by (auto simp: oe1)
      qed
      ultimately obtain graph' where
        "prune_loop oc db p alpha R graph1 V' = Some (Inr graph')"
        "length graph' = length graph1"
        "p \<notin> snd ` set (out_edges graph' p)"
        "distinct (map snd (out_edges graph' p))"
        "out_degree graph' p \<le> R"
        using less.hyps[of V' graph1] d1 p1 by blast
      then show ?thesis using unfold False len1 by simp
    qed
  qed
qed

text \<open>
  C3. Let \<open>p\<close> be a node of the graph whose stored edge scores are not negative (in a graph
  of the data model they are squared distances), and let \<open>R \<ge> 1\<close>. For every database,
  every candidate list, every \<open>alpha\<close> and either reading of \<open>add_edge\<close>, \<open>robust_prune\<close>
  returns, and in the graph it leaves the out-edges of \<open>p\<close> hold no edge to \<open>p\<close>, no target
  twice, and at most \<open>R\<close> edges.
\<close>

theorem robust_prune_bounded_simple_list:
  assumes "choices_ok oc"
    and "p < num_vertices graph"
    and "\<forall>e \<in> set (out_edges graph p). 0 \<le> fst e"
    and "1 \<le> R"
  shows "\<exists>graph'. robust_prune oc graph db p V_in alpha R = Some (Inr graph') \<and>
           num_vertices graph' = num_vertices graph \<and>
           p \<notin> snd ` set (out_edges graph' p) \<and>
           distinct (map snd (out_edges graph' p)) \<and>
           out_degree graph' p \<le> R"
proof -
  let ?V = "candidates oc graph db p V_in"
  let ?g = "clear_edges graph p"
  from candidates_ok[OF assms(1,3)]
  have c: "distinct (map snd ?V)" "p \<notin> snd ` set ?V" "\<forall>e \<in> set ?V. 0 \<le> fst e"
    by blast+
  have p: "p < length ?g" using assms(2) by (simp add: clear_edges_def num_vertices_def)
  have e: "out_edges ?g p = []"
    using assms(2) by (simp add: clear_edges_def out_edges_def num_vertices_def)
  have "\<exists>graph'. prune_loop oc db p alpha R ?g ?V = Some (Inr graph') \<and>
           length graph' = length ?g \<and>
           p \<notin> snd ` set (out_edges graph' p) \<and>
           distinct (map snd (out_edges graph' p)) \<and>
           out_degree graph' p \<le> R"
    using assms(4) by (intro prune_loop_total[OF p c]) (simp_all add: e out_degree_def)
  then show ?thesis
    by (simp add: robust_prune_def num_vertices_def clear_edges_def)
qed

theorem robust_prune_bounded_simple_list_witness:
  "\<exists>graph'. robust_prune stable_ties [[(121, 1)], [(121, 0)], [(1, 1), (144, 0)]] [[12], [1], [0]]
       1 [0, 0, 2, 0] (12 / 10) 2 = Some (Inr graph') \<and>
     num_vertices graph' = num_vertices [[(121, 1)], [(121, 0)], [(1, 1), (144, 0::nat)]] \<and>
     1 \<notin> snd ` set (out_edges graph' 1) \<and>
     distinct (map snd (out_edges graph' 1)) \<and>
     out_degree graph' 1 \<le> 2"
proof -
  have "1 < num_vertices [[(121, 1)], [(121, 0)], [(1, 1), (144::real, 0::nat)]]"
    by (simp add: num_vertices_def)
  moreover have "\<forall>e \<in> set (out_edges [[(121, 1)], [(121, 0)], [(1, 1), (144::real, 0::nat)]] 1). 0 \<le> fst e"
    by (simp add: out_edges_def)
  moreover have "(1::nat) \<le> 2" by simp
  ultimately show ?thesis
    by (rule robust_prune_bounded_simple_list[OF stable_ties_ok])
qed

section \<open>\<open>greedy_search\<close> from a node for its own vector\<close>

lemma heap_insert_set: "set (snd (heap_insert oc cap h e)) \<subseteq> insert e (set h)"
  by (auto simp: heap_insert_def dest: set_update_subset_insert[THEN subsetD])

lemma heap_insert_length: "length h \<le> cap \<Longrightarrow> length (snd (heap_insert oc cap h e)) \<le> cap"
  by (auto simp: heap_insert_def)

lemma heap_insert_keeps:
  assumes "x \<in> set h" and "fst x \<le> fst e"
  shows "x \<in> set (snd (heap_insert oc cap h e))"
proof -
  have "x \<in> set (h[evict oc h := e])" if "fst e < fst (h ! evict oc h)"
  proof -
    from assms(1) obtain j where j: "j < length h" "h ! j = x" by (auto simp: in_set_conv_nth)
    with that assms(2) have "j \<noteq> evict oc h" by auto
    with j have "(h[evict oc h := e]) ! j = x" by simp
    with j(1) show ?thesis by (metis length_list_update nth_mem)
  qed
  with assms(1) show ?thesis by (auto simp: heap_insert_def)
qed

lemma heap_insert_unique_set: "set (snd (heap_insert_unique oc cap h e)) \<subseteq> insert e (set h)"
  using heap_insert_set[of oc cap h e] by (auto simp: heap_insert_unique_def)

lemma heap_insert_unique_keeps:
  "x \<in> set h \<Longrightarrow> fst x \<le> fst e \<Longrightarrow> x \<in> set (snd (heap_insert_unique oc cap h e))"
  by (simp add: heap_insert_unique_def heap_insert_keeps)

lemma refill_fold:
  "set q2 \<subseteq> S \<Longrightarrow> set es \<subseteq> S \<Longrightarrow> length q2 \<le> L \<Longrightarrow>
   set (fold (\<lambda>(s, p) q2. if p \<notin> set visited then snd (heap_insert oc L q2 (s, p)) else q2) es q2) \<subseteq> S \<and>
   length (fold (\<lambda>(s, p) q2. if p \<notin> set visited then snd (heap_insert oc L q2 (s, p)) else q2) es q2) \<le> L"
proof (induction es arbitrary: q2)
  case Nil
  then show ?case by simp
next
  case (Cons e es)
  obtain s p where e: "e = (s, p)" by (cases e)
  let ?q = "if p \<notin> set visited then snd (heap_insert oc L q2 (s, p)) else q2"
  have "set ?q \<subseteq> S"
    using heap_insert_set[of oc L q2 "(s, p)"] Cons.prems(1,2) by (auto simp: e)
  moreover have "length ?q \<le> L"
    using heap_insert_length[OF Cons.prems(3)] Cons.prems(3) by simp
  moreover have "set es \<subseteq> S" using Cons.prems(2) by simp
  ultimately show ?case using Cons.IH[of ?q] by (simp add: e)
qed

lemma refill_props:
  "set (refill oc L result visited) \<subseteq> set result \<and> length (refill oc L result visited) \<le> L"
  unfolding refill_def by (rule refill_fold) simp_all

lemma offer_props:
  assumes "offer oc db query L visited p (result, q2) = (result', q2')"
  shows "set result' \<subseteq> insert (sum_of_squares (db ! p) query, p) (set result)"
    and "set q2' \<subseteq> insert (sum_of_squares (db ! p) query, p) (set q2)"
    and "length q2 \<le> L \<Longrightarrow> length q2' \<le> L"
    and "x \<in> set result \<Longrightarrow> fst x \<le> 0 \<Longrightarrow> x \<in> set result'"
proof -
  let ?e = "(sum_of_squares (db ! p) query, p)"
  obtain ins r where u: "heap_insert_unique oc L result ?e = (ins, r)"
    by (cases "heap_insert_unique oc L result ?e")
  have r: "r = snd (heap_insert_unique oc L result ?e)" using u by simp
  have res: "result' = (if p \<notin> set visited then r else result)"
    and q: "q2' = (if p \<notin> set visited \<and> ins then snd (heap_insert oc L q2 ?e) else q2)"
    using assms u by (auto simp: offer_def Let_def split: if_splits)
  show "set result' \<subseteq> insert ?e (set result)"
    using heap_insert_unique_set[of oc L result ?e] by (auto simp: res r)
  show "set q2' \<subseteq> insert ?e (set q2)"
    using heap_insert_set[of oc L q2 ?e] by (auto simp: q)
  show "length q2 \<le> L \<Longrightarrow> length q2' \<le> L"
    using heap_insert_length[of q2 L oc ?e] by (simp add: q)
  show "x \<in> set result \<Longrightarrow> fst x \<le> 0 \<Longrightarrow> x \<in> set result'"
    using heap_insert_unique_keeps[of x result ?e oc L] sum_of_squares_nonneg[of "db ! p" query]
    by (auto simp: res r)
qed

lemma offers_props:
  assumes "\<forall>p \<in> set ps. p < N"
    and "z \<in> set result" and "fst z \<le> 0"
    and "\<forall>e \<in> set result. snd e < N \<and> fst e = sum_of_squares (db ! snd e) query"
    and "\<forall>e \<in> set q2. snd e < N"
    and "length q2 \<le> L"
  shows "z \<in> set (fst (fold (offer oc db query L visited) ps (result, q2))) \<and>
         (\<forall>e \<in> set (fst (fold (offer oc db query L visited) ps (result, q2))).
            snd e < N \<and> fst e = sum_of_squares (db ! snd e) query) \<and>
         (\<forall>e \<in> set (snd (fold (offer oc db query L visited) ps (result, q2))). snd e < N) \<and>
         length (snd (fold (offer oc db query L visited) ps (result, q2))) \<le> L"
  using assms
proof (induction ps arbitrary: result q2)
  case Nil
  then show ?case by simp
next
  case (Cons p ps)
  obtain result' q2' where o: "offer oc db query L visited p (result, q2) = (result', q2')"
    by (cases "offer oc db query L visited p (result, q2)")
  note props = offer_props[OF o]
  have pN: "p < N" using Cons.prems(1) by simp
  have a: "\<forall>p \<in> set ps. p < N" using Cons.prems(1) by simp
  have b: "z \<in> set result'" using props(4)[OF Cons.prems(2,3)] .
  have c: "\<forall>e \<in> set result'. snd e < N \<and> fst e = sum_of_squares (db ! snd e) query"
    using props(1) Cons.prems(4) pN by auto
  have d: "\<forall>e \<in> set q2'. snd e < N" using props(2) Cons.prems(5) pN by auto
  have e: "length q2' \<le> L" using props(3) Cons.prems(6) by simp
  from Cons.IH[OF a b Cons.prems(3) c d e] show ?case by (simp add: o)
qed

lemma expand_props:
  assumes "\<forall>e \<in> set (out_edges graph p_star). snd e < N"
    and "z \<in> set result" and "fst z \<le> 0"
    and "\<forall>e \<in> set result. snd e < N \<and> fst e = sum_of_squares (db ! snd e) query"
  shows "z \<in> set (fst (expand oc graph db query L p_star visited result)) \<and>
         (\<forall>e \<in> set (fst (expand oc graph db query L p_star visited result)).
            snd e < N \<and> fst e = sum_of_squares (db ! snd e) query) \<and>
         (\<forall>e \<in> set (snd (expand oc graph db query L p_star visited result)). snd e < N) \<and>
         length (snd (expand oc graph db query L p_star visited result)) \<le> L"
proof -
  have a: "\<forall>p \<in> set (map snd (out_edges graph p_star)). p < N" using assms(1) by auto
  have b: "\<forall>e \<in> set (refill oc L result visited). snd e < N"
    using refill_props[of oc L result visited] assms(4) by blast
  have c: "length (refill oc L result visited) \<le> L"
    using refill_props[of oc L result visited] by blast
  show ?thesis
    unfolding expand_def by (rule offers_props[OF a assms(2,3,4) b c])
qed

lemma distinct_below_length: "distinct xs \<Longrightarrow> set xs \<subseteq> {..<N} \<Longrightarrow> length xs \<le> N"
  by (metis card_lessThan card_mono distinct_card finite_lessThan)

lemma greedy_loop_total:
  assumes ok: "choices_ok oc"
    and gr: "\<forall>p < N. \<forall>e \<in> set (out_edges graph p). snd e < N"
    and z0: "fst z \<le> 0"
  shows "z \<in> set result \<Longrightarrow>
         \<forall>e \<in> set result. snd e < N \<and> fst e = sum_of_squares (db ! snd e) query \<Longrightarrow>
         \<forall>e \<in> set q1. snd e < N \<Longrightarrow> length q1 \<le> L \<Longrightarrow>
         distinct visited \<Longrightarrow> set visited \<subseteq> {..<N} \<Longrightarrow>
         \<exists>result' visited'. greedy_loop oc graph db query L result q1 visited = Some (result', visited') \<and>
            z \<in> set result' \<and>
            (\<forall>e \<in> set result'. snd e < N \<and> fst e = sum_of_squares (db ! snd e) query)"
proof (induction "(N - length visited) * Suc L + length q1" arbitrary: result q1 visited rule: less_induct)
  case less
  show ?case
  proof (cases "q1 = []")
    case True
    then show ?thesis
      using less.prems(1,2) by (subst greedy_loop.simps) simp
  next
    case False
    define i where "i = pop_min oc q1"
    define p_star where "p_star = snd (q1 ! i)"
    define q1' where "q1' = remove_nth i q1"
    have i: "i < length q1" using ok False by (simp add: choices_ok_def i_def)
    have pN: "p_star < N" using less.prems(3) i by (simp add: p_star_def)
    have lq1': "length q1' < length q1" using i by (simp add: q1'_def remove_nth_def)
    have sq1': "set q1' \<subseteq> set q1"
      unfolding q1'_def remove_nth_def by (auto dest: in_set_takeD in_set_dropD)
    show ?thesis
    proof (cases "p_star \<in> set visited")
      case True
      have eq: "greedy_loop oc graph db query L result q1 visited =
                greedy_loop oc graph db query L result q1' visited"
        by (subst greedy_loop.simps)
          (simp add: False Let_def i_def[symmetric] p_star_def[symmetric] q1'_def[symmetric] True)
      have "(N - length visited) * Suc L + length q1' < (N - length visited) * Suc L + length q1"
        using lq1' by simp
      moreover have "\<forall>e \<in> set q1'. snd e < N" using less.prems(3) sq1' by auto
      moreover have "length q1' \<le> L" using less.prems(4) lq1' by simp
      ultimately show ?thesis
        using less.hyps[of visited q1' result] less.prems(1,2,5,6) by (simp add: eq)
    next
      case False
      note unvisited = this
      define visited' where "visited' = visited @ [p_star]"
      define step where "step = expand oc graph db query L p_star visited' result"
      have eq: "greedy_loop oc graph db query L result q1 visited =
                greedy_loop oc graph db query L (fst step) (snd step) visited'"
        by (subst greedy_loop.simps)
          (simp add: \<open>q1 \<noteq> []\<close> Let_def i_def[symmetric] p_star_def[symmetric] q1'_def[symmetric]
            unvisited visited'_def[symmetric] step_def[symmetric])
      have dv: "distinct visited'" using less.prems(5) unvisited by (simp add: visited'_def)
      have sv: "set visited' \<subseteq> {..<N}" using less.prems(6) pN by (simp add: visited'_def)
      have lv: "length visited' \<le> N" using dv sv by (rule distinct_below_length)
      have nb: "\<forall>e \<in> set (out_edges graph p_star). snd e < N" using gr pN by simp
      note ex = expand_props[OF nb less.prems(1) z0 less.prems(2), of oc L visited', folded step_def]
      have "length (snd step) \<le> L" using ex by blast
      moreover obtain a where a: "N - length visited = Suc a"
        using lv by (cases "N - length visited") (auto simp: visited'_def)
      moreover have "N - length visited' = a" using a by (simp add: visited'_def)
      ultimately have "(N - length visited') * Suc L + length (snd step)
                       < (N - length visited) * Suc L + length q1"
        by simp
      then show ?thesis
        using less.hyps[of visited' "snd step" "fst step"] ex dv sv by (simp add: eq)
    qed
  qed
qed

lemma drain_first:
  assumes ok: "choices_ok oc"
    and z: "z \<in> set result" and z0: "fst z \<le> 0"
    and sc: "\<forall>e \<in> set result. snd e < N \<and> fst e = sum_of_squares (db ! snd e) query"
    and k: "1 \<le> k_nn"
  shows "fst (get_top_k_with_scores_from_heap oc result k_nn) ! 0 = 0 \<and>
         sum_of_squares (db ! (snd (get_top_k_with_scores_from_heap oc result k_nn) ! 0)) query = 0 \<and>
         snd (get_top_k_with_scores_from_heap oc result k_nn) ! 0 < N \<and>
         length (fst (get_top_k_with_scores_from_heap oc result k_nn)) = k_nn \<and>
         length (snd (get_top_k_with_scores_from_heap oc result k_nn)) = k_nn"
proof -
  let ?d = "drain oc result"
  have ms: "mset ?d = mset result" and so: "sorted (map fst ?d)"
    using ok by (simp_all add: choices_ok_def)
  have st: "set ?d = set result" using ms by (rule mset_eq_setD)
  have ne: "?d \<noteq> []" using st z by auto
  then obtain e es where d: "?d = e # es" by (cases ?d) auto
  have "e \<in> set result" using st d by auto
  then have eN: "snd e < N" and es: "fst e = sum_of_squares (db ! snd e) query" using sc by auto
  have "z \<in> set ?d" using st z by simp
  then have "fst e \<le> fst z" using so d by auto
  with z0 es sum_of_squares_nonneg[of "db ! snd e" query] have e0: "fst e = 0" by simp
  obtain k' where k': "k_nn = Suc k'" using k by (cases k_nn) auto
  have tk: "take k_nn ?d = e # take k' es" by (simp add: d k')
  show ?thesis
    using e0 es eN by (simp add: get_top_k_with_scores_from_heap_def Let_def d k')
qed

text \<open>
  C4, as amended. Let the graph be over the database (as many nodes as vectors, every edge
  target a node), the vectors of one dimension, \<open>s\<close> a node, \<open>k \<ge> 1\<close> and \<open>L \<ge> k\<close>. Then
  \<open>greedy_search(G, DB, s, DB[s], k, L)\<close> returns, the first score of the top-k is 0, and the
  first id is a node whose vector equals \<open>DB[s]\<close>; it is \<open>s\<close> itself when no other node
  carries the vector of \<open>s\<close>. This holds for every way of breaking ties.
\<close>

theorem greedy_search_finds_source_vector:
  assumes "choices_ok oc"
    and "num_vertices graph = num_cols db"
    and "\<forall>es \<in> set graph. \<forall>e \<in> set es. snd e < num_cols db"
    and "\<forall>v \<in> set db. length v = d"
    and "source < num_cols db"
    and "1 \<le> k_nn" and "k_nn \<le> L"
  shows "\<exists>top_k_scores top_k visited.
           greedy_search oc graph db source (db ! source) k_nn L = Some (Inr (top_k_scores, top_k, visited)) \<and>
           length top_k_scores = k_nn \<and> length top_k = k_nn \<and>
           top_k_scores ! 0 = 0 \<and>
           top_k ! 0 < num_cols db \<and>
           db ! (top_k ! 0) = db ! source \<and>
           ((\<forall>q < num_cols db. q \<noteq> source \<longrightarrow> db ! q \<noteq> db ! source) \<longrightarrow> top_k ! 0 = source)"
proof -
  let ?N = "num_cols db"
  let ?query = "db ! source"
  let ?z = "(0::real, source)"
  have L1: "0 < L" using assms(6,7) by simp
  have init: "snd (heap_insert oc L [] (sum_of_squares (db ! source) ?query, source)) = [?z]"
    using L1 by (simp add: heap_insert_def sum_of_squares_self)
  have gr: "\<forall>p < ?N. \<forall>e \<in> set (out_edges graph p). snd e < ?N"
    using assms(2,3) by (auto simp: out_edges_def num_vertices_def)
  have "\<exists>result' visited'. greedy_loop oc graph db ?query L [?z] [?z] [] = Some (result', visited') \<and>
            ?z \<in> set result' \<and>
            (\<forall>e \<in> set result'. snd e < ?N \<and> fst e = sum_of_squares (db ! snd e) ?query)"
    using assms(5) L1
    by (intro greedy_loop_total[OF assms(1) gr]) (simp_all add: sum_of_squares_self)
  then obtain result' visited' where
    loop: "greedy_loop oc graph db ?query L [?z] [?z] [] = Some (result', visited')"
    and z: "?z \<in> set result'"
    and sc: "\<forall>e \<in> set result'. snd e < ?N \<and> fst e = sum_of_squares (db ! snd e) ?query"
    by blast
  let ?t = "get_top_k_with_scores_from_heap oc result' k_nn"
  from drain_first[OF assms(1) z _ sc assms(6)]
  have t: "fst ?t ! 0 = 0" "sum_of_squares (db ! (snd ?t ! 0)) ?query = 0" "snd ?t ! 0 < ?N"
    "length (fst ?t) = k_nn" "length (snd ?t) = k_nn"
    by simp_all
  have "length (db ! (snd ?t ! 0)) = length ?query"
    using assms(4,5) t(3) by (simp add: num_cols_def)
  from sum_of_squares_eq_0[OF this t(2)] have same: "db ! (snd ?t ! 0) = ?query" .
  have gs: "greedy_search oc graph db source ?query k_nn L = Some (Inr (fst ?t, snd ?t, visited'))"
    using assms(7) by (simp add: greedy_search_def init loop Let_def case_prod_beta)
  show ?thesis
    using gs t same by (intro exI[of _ "fst ?t"] exI[of _ "snd ?t"] exI[of _ visited']) auto
qed

theorem greedy_search_finds_source_vector_witness:
  "\<exists>top_k_scores top_k visited.
     greedy_search stable_ties [[(1, 1)], [(1, 0), (4, 2)], [(4, 1)]] [[3], [4], [6]] 2
       ([[3], [4], [6]] ! 2) 2 2 = Some (Inr (top_k_scores, top_k, visited)) \<and>
     length top_k_scores = 2 \<and> length top_k = 2 \<and>
     top_k_scores ! 0 = 0 \<and>
     top_k ! 0 < num_cols [[3], [4], [6::real]] \<and>
     [[3], [4], [6::real]] ! (top_k ! 0) = [[3], [4], [6]] ! 2 \<and>
     top_k ! 0 = 2"
proof -
  let ?db = "[[3], [4], [6::real]]"
  let ?g = "[[(1, 1)], [(1, 0), (4, 2)], [(4::real, 1::nat)]]"
  have h2: "num_vertices ?g = num_cols ?db" by (simp add: num_vertices_def num_cols_def)
  have h3: "\<forall>es \<in> set ?g. \<forall>e \<in> set es. snd e < num_cols ?db" by (simp add: num_cols_def)
  have h4: "\<forall>v \<in> set ?db. length v = 1" by simp
  have h5: "2 < num_cols ?db" by (simp add: num_cols_def)
  have h6: "(1::nat) \<le> 2" "(2::nat) \<le> 2" by simp_all
  have u: "\<forall>q < num_cols ?db. q \<noteq> 2 \<longrightarrow> ?db ! q \<noteq> ?db ! 2"
    by (auto simp: num_cols_def less_Suc_eq numeral_3_eq_3)
  from greedy_search_finds_source_vector[OF stable_ties_ok h2 h3 h4 h5 h6] u
  show ?thesis by blast
qed

text \<open>
  The claim as stated fails when another node carries the same vector and the drain returns
  it before \<open>s\<close>: two nodes with the vector \<open>[3]\<close>, an edge from 0 to 1, source 0, \<open>k = 1\<close>,
  \<open>L = 2\<close>. The result list holds \<open>(0, 0)\<close> and \<open>(0, 1)\<close>; when the drain returns the later
  of two equal scores first, the top-1 is node 1.
\<close>

theorem greedy_search_first_is_not_source_counterexample:
  "choices_ok reversed_ties \<and>
   greedy_search reversed_ties [[(0, 1)], []] [[3], [3]] 0 ([[3], [3]] ! 0) 1 2
     = Some (Inr ([0], [1], [0, 1]))"
proof -
  have "greedy_search reversed_ties [[(0, 1)], []] [[3], [3]] 0 ([[3], [3]] ! 0) 1 2
     = Some (Inr ([0], [1], [0, 1]))"
    by code_simp
  with reversed_ties_ok show ?thesis by simp
qed

section \<open>The back-links of \<open>train\<close>\<close>

text \<open>
  C1. \<open>tmp\<close> is built as \<open>std::vector<size_t>(out_degree(j) + 1)\<close>, which holds
  \<open>out_degree(j) + 1\<close> zeros, before \<open>p\<close> and the out-neighbours of \<open>j\<close> are pushed: its size is
  \<open>2 \<sdot> out_degree(j) + 2\<close> and node 0 is among the candidates. In training the vectors
  \<open>[12]\<close>, \<open>[1]\<close>, \<open>[0]\<close> with \<open>L = 2\<close> and \<open>R = 2\<close>, the step for \<open>p = 2\<close> and \<open>j = 0\<close> finds
  \<open>N_out(0) = [1]\<close>: \<open>|N_out(0)| + 1 = 2 \<le> R\<close>, yet \<open>tmp = [0, 0, 2, 1]\<close> has four elements,
  the prune runs and node 0 ends without the edge to node 2 that \<open>add_edge\<close> would have given.
\<close>

theorem backlink_tmp_starts_with_zeros:
  "backlink_tmp [[(121, 1)], [(1, 2), (121, 0)], [(1, 1), (144, 0)]] 2 0 = [0, 0, 2, 1] \<and>
   out_degree [[(121, 1)], [(1, 2), (121, 0)], [(1, 1), (144, 0)]] 0 + 1 \<le> 2 \<and>
   backlink stable_ties [[12], [1], [0]] (12 / 10) 2 2 0
     [[(121, 1)], [(1, 2), (121, 0)], [(1, 1), (144, 0)]]
     = Some (Inr [[(121, 1)], [(1, 2), (121, 0)], [(1, 1), (144, 0)]]) \<and>
   add_edge stable_ties [[(121, 1)], [(1, 2), (121, 0)], [(1, 1), (144, 0)]] 0 2
     (sum_of_squares ([[12], [1], [0]] ! 2) ([[12], [1], [0]] ! 0))
     = [[(121, 1), (144, 2)], [(1, 2), (121, 0)], [(1, 1), (144, 0)]] \<and>
   train stable_ties (vamana_index_new 3 2 2 0) [[12], [1], [0]]
     = Some (Inr \<lparr>vi_feature_vectors = [[12], [1], [0]], vi_dimension = 1, vi_num_vectors = 3,
          vi_L_build = 2, vi_R_max_degree = 2, vi_B_backtrack = 2, vi_alpha_min = 1,
          vi_alpha_max = 12 / 10,
          vi_graph = [[(121, 1)], [(1, 2), (121, 0)], [(1, 1), (144, 0)]], vi_medioid = 1\<rparr>)"
  by code_simp

section \<open>What \<open>write_index\<close> stores\<close>

lemma edges_before_0: "edges_before graph 0 = 0"
  by (simp add: edges_before_def)

lemma edges_before_Suc:
  "i < length graph \<Longrightarrow> edges_before graph (Suc i) = edges_before graph i + length (graph ! i)"
  by (simp add: edges_before_def take_Suc_conv_app_nth)

lemma edges_before_all: "edges_before graph (length graph) = num_edges graph"
  by (simp add: edges_before_def num_edges_def)

lemma edges_before_le: "edges_before graph i \<le> num_edges graph"
proof -
  have "num_edges graph = sum_list (map length (take i graph)) + sum_list (map length (drop i graph))"
    unfolding num_edges_def by (metis append_take_drop_id map_append sum_list_append)
  then show ?thesis by (simp add: edges_before_def)
qed

lemma csr_edges:
  assumes "edge_offset c + length es \<le> length (adj_scores c)"
    and "edge_offset c + length es \<le> length (adj_ids c)"
  shows "edge_offset (fold csr_edge es c) = edge_offset c + length es \<and>
         take (edge_offset c + length es) (adj_scores (fold csr_edge es c))
           = take (edge_offset c) (adj_scores c) @ map fst es \<and>
         take (edge_offset c + length es) (adj_ids (fold csr_edge es c))
           = take (edge_offset c) (adj_ids c) @ map snd es \<and>
         length (adj_scores (fold csr_edge es c)) = length (adj_scores c) \<and>
         length (adj_ids (fold csr_edge es c)) = length (adj_ids c) \<and>
         adj_index (fold csr_edge es c) = adj_index c"
  using assms
proof (induction es arbitrary: c)
  case Nil
  then show ?case by simp
next
  case (Cons e es)
  let ?c1 = "csr_edge e c"
  have o: "edge_offset c < length (adj_scores c)" "edge_offset c < length (adj_ids c)"
    using Cons.prems by simp_all
  have c1: "edge_offset ?c1 = Suc (edge_offset c)"
    "length (adj_scores ?c1) = length (adj_scores c)"
    "length (adj_ids ?c1) = length (adj_ids c)"
    "adj_index ?c1 = adj_index c"
    "take (Suc (edge_offset c)) (adj_scores ?c1) = take (edge_offset c) (adj_scores c) @ [fst e]"
    "take (Suc (edge_offset c)) (adj_ids ?c1) = take (edge_offset c) (adj_ids c) @ [snd e]"
    using o by (simp_all add: csr_edge_def take_Suc_conv_app_nth)
  have p: "edge_offset ?c1 + length es \<le> length (adj_scores ?c1)"
    "edge_offset ?c1 + length es \<le> length (adj_ids ?c1)"
    using Cons.prems c1 by simp_all
  from Cons.IH[OF p] show ?case by (simp add: c1)
qed

lemma csr_node_inv:
  assumes "csr_inv graph n c" and "n < length graph"
  shows "csr_inv graph (Suc n) (csr_node graph n c)"
proof -
  let ?c0 = "c\<lparr>adj_index := (adj_index c)[n := of_nat (edge_offset c)]\<rparr>"
  let ?es = "graph ! n"
  from assms(1) have inv: "edge_offset c = edges_before graph n"
    "length (adj_scores c) = num_edges graph" "length (adj_ids c) = num_edges graph"
    "length (adj_index c) = Suc (length graph)"
    "take (edges_before graph n) (adj_scores c) = concat (map (map fst) (take n graph))"
    "take (edges_before graph n) (adj_ids c) = concat (map (map snd) (take n graph))"
    "take n (adj_index c) = map (\<lambda>i. of_nat (edges_before graph i)) [0..<n]"
    by (simp_all add: csr_inv_def)
  have next_le: "edges_before graph n + length ?es \<le> num_edges graph"
    using edges_before_le[of graph "Suc n"] assms(2) by (simp add: edges_before_Suc)
  have a: "edge_offset ?c0 + length ?es \<le> length (adj_scores ?c0)"
    "edge_offset ?c0 + length ?es \<le> length (adj_ids ?c0)"
    using next_le inv by simp_all
  note r = csr_edges[OF a]
  have node: "csr_node graph n c = fold csr_edge ?es ?c0"
    by (simp add: csr_node_def out_edges_def)
  have idx: "take (Suc n) ((adj_index c)[n := of_nat (edge_offset c)])
             = map (\<lambda>i. of_nat (edges_before graph i)) [0..<Suc n]"
    using inv(1,4,7) assms(2) by (simp add: take_Suc_conv_app_nth)
  show ?thesis
    unfolding csr_inv_def node
    using r inv assms(2) idx
    by (simp add: edges_before_Suc take_Suc_conv_app_nth)
qed

lemma csr_nodes_inv:
  assumes "n \<le> length graph"
  shows "csr_inv graph n
           (fold (csr_node graph) [0..<n]
              \<lparr>adj_scores = replicate (num_edges graph) 0, adj_ids = replicate (num_edges graph) 0,
               adj_index = replicate (length graph + 1) 0, edge_offset = 0\<rparr>)"
  using assms
proof (induction n)
  case 0
  then show ?case by (simp add: csr_inv_def edges_before_0)
next
  case (Suc n)
  then show ?case using csr_node_inv[of graph n] by simp
qed

lemma csr_of_eq:
  "adj_scores (csr_of graph) = concat (map (map fst) graph) \<and>
   adj_ids (csr_of graph) = concat (map (map snd) graph) \<and>
   adj_index (csr_of graph) = map (\<lambda>i. of_nat (edges_before graph i)) [0..<Suc (length graph)]"
proof -
  let ?c = "fold (csr_node graph) [0..<length graph]
              \<lparr>adj_scores = replicate (num_edges graph) 0, adj_ids = replicate (num_edges graph) 0,
               adj_index = replicate (length graph + 1) 0, edge_offset = 0\<rparr>"
  have "csr_inv graph (length graph) ?c" by (rule csr_nodes_inv) simp
  then have inv: "edge_offset ?c = num_edges graph"
    "length (adj_scores ?c) = num_edges graph" "length (adj_ids ?c) = num_edges graph"
    "length (adj_index ?c) = Suc (length graph)"
    "take (num_edges graph) (adj_scores ?c) = concat (map (map fst) graph)"
    "take (num_edges graph) (adj_ids ?c) = concat (map (map snd) graph)"
    "take (length graph) (adj_index ?c) = map (\<lambda>i. of_nat (edges_before graph i)) [0..<length graph]"
    by (simp_all add: csr_inv_def edges_before_all)
  have s: "adj_scores ?c = concat (map (map fst) graph)" using inv(2,5) by simp
  have i: "adj_ids ?c = concat (map (map snd) graph)" using inv(3,6) by simp
  have "(adj_index ?c)[length graph := of_nat (num_edges graph)]
        = take (length graph) (adj_index ?c) @ [of_nat (num_edges graph)]"
    using inv(4) by (simp add: upd_conv_take_nth_drop)
  then have x: "(adj_index ?c)[length graph := of_nat (num_edges graph)]
        = map (\<lambda>i. of_nat (edges_before graph i)) [0..<Suc (length graph)]"
    using inv(7) by (simp add: edges_before_all)
  show ?thesis
    using s i x inv(1,4) by (simp add: csr_of_def Let_def num_vertices_def)
qed

lemma metadata_folded:
  "st uri = Some (Group [] []) \<Longrightarrow>
   fold (put_metadata uri) (metadata idx) st = st(uri \<mapsto> Group (metadata idx) [])"
  by (simp add: metadata_def put_metadata_def)

lemma write_index_written:
  assumes "\<not> (is_dir st uri \<and> overwrite = False)"
  shows "\<exists>st'. write_index idx uri overwrite st = (True, idx, st') \<and>
           st' uri = Some (Group (metadata idx)
                             [''feature_vectors'', ''adj_scores'', ''adj_ids'', ''adj_index'']) \<and>
           st' (uri @ ''/feature_vectors'') = Some (MatrixArray (vi_feature_vectors idx)) \<and>
           st' (uri @ ''/adj_scores'') = Some (ScoreArray (adj_scores (csr_of (vi_graph idx)))) \<and>
           st' (uri @ ''/adj_ids'') = Some (IdArray (adj_ids (csr_of (vi_graph idx)))) \<and>
           st' (uri @ ''/adj_index'') = Some (IndexArray (adj_index (csr_of (vi_graph idx))))"
proof -
  define st1 where "st1 = (if is_dir st uri then remove_dir st uri else st)"
  define st2 where "st2 = group_create st1 uri"
  have "st2 uri = Some (Group [] [])" by (simp add: st2_def group_create_def)
  then have m: "fold (put_metadata uri) (metadata idx) st2 = st2(uri \<mapsto> Group (metadata idx) [])"
    by (rule metadata_folded)
  show ?thesis
    using assms
    by (simp add: write_index_def Let_def st1_def[symmetric] st2_def[symmetric] m add_member_def
        write_array_def)
qed

lemma metadata_gets:
  "get_uint64 (metadata idx) ''dimension'' = Inr (vi_dimension idx)"
  "get_uint64 (metadata idx) ''ntotal'' = Inr (vi_num_vectors idx)"
  "get_uint64 (metadata idx) ''L'' = Inr (vi_L_build idx)"
  "get_uint64 (metadata idx) ''R'' = Inr (vi_R_max_degree idx)"
  "get_uint64 (metadata idx) ''B'' = Inr (vi_B_backtrack idx)"
  "get_float32 (metadata idx) ''alpha_min'' = Inr (vi_alpha_min idx)"
  "get_float32 (metadata idx) ''alpha_max'' = Inr (vi_alpha_max idx)"
  "get_uint64 (metadata idx) ''medioid'' = Inr (vi_medioid idx)"
  by (simp_all add: metadata_def get_uint64_def get_float32_def)

lemma csr_of_example:
  "csr_of [[(121, 1)], [(1, 2), (121, 0)], [(1, 1), (144, 0)]]
     = \<lparr>adj_scores = [121, 1, 121, 1, 144], adj_ids = [1, 2, 0, 1, 0],
        adj_index = [0, 1, 3, 5], edge_offset = 5\<rparr>"
  by (simp add: csr_of_def csr_node_def csr_edge_def num_edges_def num_vertices_def out_edges_def
      Let_def upt_rec)

text \<open>
  C10. \<open>write_index\<close> returns \<open>false\<close> exactly when the group URI is a directory and
  \<open>overwrite\<close> is \<open>false\<close>; then the store and the index are the ones it was called with.
  When it returns \<open>true\<close> the index is unchanged and the store holds the group with the
  metadata table and the four members, the feature vectors, and the arrays \<open>adj_scores\<close>,
  \<open>adj_ids\<close> and \<open>adj_index\<close> of the graph.
\<close>

theorem write_index_refuses_existing_group:
  "(fst (write_index idx group_uri overwrite st) = False \<longleftrightarrow> is_dir st group_uri \<and> overwrite = False) \<and>
   (is_dir st group_uri \<and> overwrite = False \<longrightarrow>
      write_index idx group_uri overwrite st = (False, idx, st)) \<and>
   (\<forall>idx' st'. write_index idx group_uri overwrite st = (True, idx', st') \<longrightarrow>
      idx' = idx \<and>
      st' group_uri = Some (Group (metadata idx)
                             [''feature_vectors'', ''adj_scores'', ''adj_ids'', ''adj_index'']) \<and>
      st' (group_uri @ ''/feature_vectors'') = Some (MatrixArray (vi_feature_vectors idx)) \<and>
      st' (group_uri @ ''/adj_scores'') = Some (ScoreArray (adj_scores (csr_of (vi_graph idx)))) \<and>
      st' (group_uri @ ''/adj_ids'') = Some (IdArray (adj_ids (csr_of (vi_graph idx)))) \<and>
      st' (group_uri @ ''/adj_index'') = Some (IndexArray (adj_index (csr_of (vi_graph idx)))))"
proof (intro conjI allI impI)
  show "fst (write_index idx group_uri overwrite st) = False \<longleftrightarrow> is_dir st group_uri \<and> overwrite = False"
    by (simp add: write_index_def Let_def)
next
  assume "is_dir st group_uri \<and> overwrite = False"
  then show "write_index idx group_uri overwrite st = (False, idx, st)"
    by (simp add: write_index_def)
next
  fix idx' st'
  assume w: "write_index idx group_uri overwrite st = (True, idx', st')"
  then have "\<not> (is_dir st group_uri \<and> overwrite = False)"
    by (auto simp: write_index_def split: if_splits)
  from write_index_written[OF this, of idx] w
  show "idx' = idx"
    and "st' group_uri = Some (Group (metadata idx)
                             [''feature_vectors'', ''adj_scores'', ''adj_ids'', ''adj_index''])"
    and "st' (group_uri @ ''/feature_vectors'') = Some (MatrixArray (vi_feature_vectors idx))"
    and "st' (group_uri @ ''/adj_scores'') = Some (ScoreArray (adj_scores (csr_of (vi_graph idx))))"
    and "st' (group_uri @ ''/adj_ids'') = Some (IdArray (adj_ids (csr_of (vi_graph idx))))"
    and "st' (group_uri @ ''/adj_index'') = Some (IndexArray (adj_index (csr_of (vi_graph idx))))"
    by auto
qed

theorem write_index_refuses_existing_group_witness:
  "let G = \<lparr>vi_feature_vectors = [[12], [1], [0]], vi_dimension = 1, vi_num_vectors = 3,
            vi_L_build = 2, vi_R_max_degree = 2, vi_B_backtrack = 2, vi_alpha_min = 1,
            vi_alpha_max = 12 / 10,
            vi_graph = [[(121, 1)], [(1, 2), (121, 0)], [(1, 1), (144, 0)]], vi_medioid = 1\<rparr>;
       old = (\<lambda>u. None)(''g'' \<mapsto> Group [(''dimension'', UInt64 7)] []);
       written = write_index G ''g'' True old
   in is_dir old ''g'' \<and>
      write_index G ''g'' False old = (False, G, old) \<and>
      fst written = True \<and> fst (snd written) = G \<and>
      snd (snd written) ''g'' = Some (Group (metadata G)
                             [''feature_vectors'', ''adj_scores'', ''adj_ids'', ''adj_index'']) \<and>
      snd (snd written) ''g/feature_vectors'' = Some (MatrixArray [[12], [1], [0]]) \<and>
      snd (snd written) ''g/adj_scores'' = Some (ScoreArray [121, 1, 121, 1, 144]) \<and>
      snd (snd written) ''g/adj_ids'' = Some (IdArray [1, 2, 0, 1, 0]) \<and>
      snd (snd written) ''g/adj_index'' = Some (IndexArray [0, 1, 3, 5])"
proof -
  define G where "G = \<lparr>vi_feature_vectors = [[12], [1], [0]], vi_dimension = 1, vi_num_vectors = 3,
            vi_L_build = 2, vi_R_max_degree = 2, vi_B_backtrack = 2, vi_alpha_min = 1,
            vi_alpha_max = 12 / 10,
            vi_graph = [[(121, 1)], [(1, 2), (121, 0)], [(1, 1), (144, 0)]], vi_medioid = 1\<rparr>"
  define old :: store where "old = (\<lambda>u. None)(''g'' \<mapsto> Group [(''dimension'', UInt64 7)] [])"
  define written where "written = write_index G ''g'' True old"
  have d: "is_dir old ''g''" by (simp add: old_def is_dir_def)
  note refuse = write_index_refuses_existing_group[of G "''g''" False old]
  note accept = write_index_refuses_existing_group[of G "''g''" True old]
  from refuse d have r: "write_index G ''g'' False old = (False, G, old)" by simp
  from accept have ok: "fst written = True" by (simp add: written_def)
  then have w: "write_index G ''g'' True old = (True, fst (snd written), snd (snd written))"
    unfolding written_def by (metis prod.collapse)
  from accept w have a: "fst (snd written) = G"
      "snd (snd written) ''g'' = Some (Group (metadata G)
                             [''feature_vectors'', ''adj_scores'', ''adj_ids'', ''adj_index''])"
      "snd (snd written) (''g'' @ ''/feature_vectors'') = Some (MatrixArray (vi_feature_vectors G))"
      "snd (snd written) (''g'' @ ''/adj_scores'') = Some (ScoreArray (adj_scores (csr_of (vi_graph G))))"
      "snd (snd written) (''g'' @ ''/adj_ids'') = Some (IdArray (adj_ids (csr_of (vi_graph G))))"
      "snd (snd written) (''g'' @ ''/adj_index'') = Some (IndexArray (adj_index (csr_of (vi_graph G))))"
    by blast+
  have c: "csr_of (vi_graph G) = \<lparr>adj_scores = [121, 1, 121, 1, 144], adj_ids = [1, 2, 0, 1, 0],
        adj_index = [0, 1, 3, 5], edge_offset = 5\<rparr>"
    unfolding G_def vamana_index.select_convs by (rule csr_of_example)
  have fv: "vi_feature_vectors G = [[12], [1], [0]]" by (simp add: G_def)
  from d r ok a show ?thesis
    unfolding Let_def written_def[symmetric] old_def[symmetric] G_def[symmetric]
    by (simp add: c fv)
qed

section \<open>Reading a written index back\<close>

lemma length_add_edge: "length (add_edge oc graph p q s) = length graph"
  by (simp add: add_edge_def)

lemma add_edge_other: "i \<noteq> p \<Longrightarrow> add_edge oc graph p q s ! i = graph ! i"
  by (simp add: add_edge_def)

lemma read_edges_fold:
  "\<forall>j \<in> set js. j < length ids \<and> j < length scs \<Longrightarrow>
   read_edges oc i js ids scs graph
     = Inr (fold (\<lambda>e g. add_edge oc g i (snd e) (fst e)) (map (\<lambda>j. (scs ! j, ids ! j)) js) graph)"
  by (induction js arbitrary: graph) simp_all

lemma add_edges_fresh:
  "i < length graph \<Longrightarrow>
   (drop_duplicate_edge oc \<longrightarrow> distinct (map snd (graph ! i @ es))) \<Longrightarrow>
   fold (\<lambda>e g. add_edge oc g i (snd e) (fst e)) es graph = graph[i := graph ! i @ es]"
proof (induction es arbitrary: graph)
  case Nil
  then show ?case by simp
next
  case (Cons e es)
  let ?g = "add_edge oc graph i (snd e) (fst e)"
  have g: "?g = graph[i := graph ! i @ [e]]"
    using Cons.prems by (auto simp: add_edge_def out_edges_def)
  have "i < length ?g" using Cons.prems(1) by (simp add: g)
  moreover have "drop_duplicate_edge oc \<longrightarrow> distinct (map snd (?g ! i @ es))"
    using Cons.prems by (simp add: g)
  ultimately have "fold (\<lambda>e g. add_edge oc g i (snd e) (fst e)) es ?g = ?g[i := ?g ! i @ es]"
    by (rule Cons.IH)
  then show ?case using Cons.prems(1) by (simp add: g)
qed

lemma concat_segment:
  assumes "i < length graph"
  shows "drop (edges_before graph i) (take (edges_before graph (Suc i)) (concat graph)) = graph ! i"
proof -
  have "concat graph = concat (take i graph) @ graph ! i @ concat (drop (Suc i) graph)"
    using assms by (metis append_Cons append_Nil concat.simps(2) concat_append id_take_nth_drop)
  moreover have "length (concat (take i graph)) = edges_before graph i"
    by (simp add: edges_before_def length_concat)
  ultimately show ?thesis using assms by (simp add: edges_before_Suc)
qed

lemma map_nth_interval:
  assumes "b \<le> length xs"
  shows "map (\<lambda>j. xs ! j) [a..<b] = drop a (take b xs)"
proof (rule nth_equalityI)
  show "length (map (\<lambda>j. xs ! j) [a..<b]) = length (drop a (take b xs))"
    using assms by simp
next
  fix i
  assume "i < length (map (\<lambda>j. xs ! j) [a..<b])"
  then show "map (\<lambda>j. xs ! j) [a..<b] ! i = drop a (take b xs) ! i"
    using assms by simp
qed

lemma read_nodes_append:
  "read_nodes oc (xs @ ys) ids scs index graph
     = sum_bind (read_nodes oc xs ids scs index graph) (read_nodes oc ys ids scs index)"
  by (induction xs arbitrary: graph) (auto simp: sum_bind_def split: sum.splits)

lemma unat_offset:
  "n < 2 ^ 32 \<Longrightarrow> unat (of_nat n :: 32 word) = n"
  by (simp add: unat_of_nat)

lemma read_node_back:
  fixes graph :: adj_list
  assumes E: "num_edges graph < 2 ^ 32"
    and i: "i < length graph"
    and dd: "drop_duplicate_edge oc \<longrightarrow> distinct (map snd (graph ! i))"
    and g: "length g = length graph" "g ! i = []"
  defines "index \<equiv> map (\<lambda>i. of_nat (edges_before graph i) :: 32 word) [0..<Suc (length graph)]"
  shows "read_edges oc i [unat (index ! i)..<unat (index ! Suc i)]
           (concat (map (map snd) graph)) (concat (map (map fst) graph)) g
         = Inr (g[i := graph ! i])"
proof -
  let ?a = "edges_before graph i" and ?b = "edges_before graph (Suc i)"
  let ?ids = "concat (map (map snd) graph)" and ?scs = "concat (map (map fst) graph)"
  have bE: "?b \<le> num_edges graph" by (rule edges_before_le)
  have ab: "?a \<le> ?b" using i by (simp add: edges_before_Suc)
  have "index ! i = of_nat ?a" "index ! Suc i = of_nat ?b"
    using i unfolding index_def by (simp_all add: nth_append del: upt_Suc)
  moreover have "?a < 2 ^ 32" "?b < 2 ^ 32" using ab bE E by simp_all
  ultimately have ua: "unat (index ! i) = ?a" and ub: "unat (index ! Suc i) = ?b"
    by (simp_all add: unat_offset)
  have len: "length ?ids = num_edges graph" "length ?scs = num_edges graph"
    by (simp_all add: num_edges_def length_concat comp_def)
  have cs: "?scs = map fst (concat graph)" and ci: "?ids = map snd (concat graph)"
    by (simp_all add: map_concat)
  have lc: "length (concat graph) = num_edges graph"
    by (simp add: num_edges_def length_concat)
  have "map (\<lambda>j. (?scs ! j, ?ids ! j)) [?a..<?b] = map (\<lambda>j. concat graph ! j) [?a..<?b]"
    using bE lc by (simp add: cs ci)
  also have "\<dots> = drop ?a (take ?b (concat graph))"
    using bE lc by (intro map_nth_interval) simp
  also have "\<dots> = graph ! i" using i by (rule concat_segment)
  finally have seg: "map (\<lambda>j. (?scs ! j, ?ids ! j)) [?a..<?b] = graph ! i" .
  have "read_edges oc i [?a..<?b] ?ids ?scs g
        = Inr (fold (\<lambda>e g. add_edge oc g i (snd e) (fst e)) (map (\<lambda>j. (?scs ! j, ?ids ! j)) [?a..<?b]) g)"
    using bE len by (intro read_edges_fold) auto
  also have "\<dots> = Inr (g[i := g ! i @ graph ! i])"
    unfolding seg using i g dd by (subst add_edges_fresh) simp_all
  finally show ?thesis by (simp add: ua ub g)
qed

lemma read_nodes_back:
  fixes graph :: adj_list
  assumes E: "num_edges graph < 2 ^ 32"
    and dd: "drop_duplicate_edge oc \<longrightarrow> (\<forall>es \<in> set graph. distinct (map snd es))"
    and n: "n \<le> length graph"
  defines "index \<equiv> map (\<lambda>i. of_nat (edges_before graph i) :: 32 word) [0..<Suc (length graph)]"
  shows "read_nodes oc [0..<n] (concat (map (map snd) graph)) (concat (map (map fst) graph)) index
           (adj_list_new (length graph))
         = Inr (take n graph @ replicate (length graph - n) [])"
  using n
proof (induction n)
  case 0
  then show ?case by (simp add: adj_list_new_def)
next
  case (Suc n)
  let ?g = "take n graph @ replicate (length graph - n) []"
  have nl: "n < length graph" using Suc.prems by simp
  have ih: "read_nodes oc [0..<n] (concat (map (map snd) graph)) (concat (map (map fst) graph)) index
           (adj_list_new (length graph)) = Inr ?g"
    using Suc by simp
  have dn: "drop_duplicate_edge oc \<longrightarrow> distinct (map snd (graph ! n))"
    using dd nl by simp
  have gl: "length ?g = length graph" "?g ! n = []" using nl by (simp_all add: nth_append)
  have li: "Suc n < length index" using nl by (simp add: index_def)
  have one: "read_edges oc n [unat (index ! n)..<unat (index ! Suc n)]
           (concat (map (map snd) graph)) (concat (map (map fst) graph)) ?g
         = Inr (?g[n := graph ! n])"
    unfolding index_def by (rule read_node_back[OF E nl dn gl])
  have rep: "replicate (length graph - n) ([]::entry list) = [] # replicate (length graph - Suc n) []"
    using nl by (simp add: Suc_diff_Suc flip: replicate_Suc)
  have "?g[n := graph ! n] = take n graph @ (replicate (length graph - n) [])[0 := graph ! n]"
    using nl by (simp add: list_update_append)
  also have "\<dots> = take n graph @ graph ! n # replicate (length graph - Suc n) []"
    by (simp add: rep)
  also have "\<dots> = take (Suc n) graph @ replicate (length graph - Suc n) []"
    using nl by (simp add: take_Suc_conv_app_nth)
  finally have upd: "?g[n := graph ! n] = take (Suc n) graph @ replicate (length graph - Suc n) []" .
  show ?case
    using li by (simp add: read_nodes_append ih sum_bind_def one upd)
qed

lemma write_then_read_back:
  assumes "num_edges (vi_graph idx) < 2 ^ 32"
    and "vi_num_vectors idx = num_cols (vi_feature_vectors idx)"
    and "num_vertices (vi_graph idx) = vi_num_vectors idx"
    and "drop_duplicate_edge oc \<longrightarrow> (\<forall>es \<in> set (vi_graph idx). distinct (map snd es))"
    and "write_index idx group_uri overwrite st = (True, idx', st')"
  shows "read_index oc st' group_uri = Inr idx"
proof -
  let ?g = "vi_graph idx"
  have "\<not> (is_dir st group_uri \<and> overwrite = False)"
    using assms(5) by (auto simp: write_index_def split: if_splits)
  from write_index_written[OF this, of idx] assms(5)
  have grp: "st' group_uri = Some (Group (metadata idx)
                             [''feature_vectors'', ''adj_scores'', ''adj_ids'', ''adj_index''])"
    and fv: "st' (group_uri @ ''/feature_vectors'') = Some (MatrixArray (vi_feature_vectors idx))"
    and sc: "st' (group_uri @ ''/adj_scores'') = Some (ScoreArray (adj_scores (csr_of ?g)))"
    and ids: "st' (group_uri @ ''/adj_ids'') = Some (IdArray (adj_ids (csr_of ?g)))"
    and ix: "st' (group_uri @ ''/adj_index'') = Some (IndexArray (adj_index (csr_of ?g)))"
    by auto
  have len: "length ?g = vi_num_vectors idx" using assms(3) by (simp add: num_vertices_def)
  have "read_nodes oc [0..<length ?g] (concat (map (map snd) ?g)) (concat (map (map fst) ?g))
          (map (\<lambda>i. of_nat (edges_before ?g i)) [0..<Suc (length ?g)]) (adj_list_new (length ?g))
        = Inr (take (length ?g) ?g @ replicate (length ?g - length ?g) [])"
    by (rule read_nodes_back[OF assms(1,4)]) simp
  then have nodes: "read_nodes oc [0..<vi_num_vectors idx] (adj_ids (csr_of ?g)) (adj_scores (csr_of ?g))
          (adj_index (csr_of ?g)) (adj_list_new (vi_num_vectors idx)) = Inr ?g"
    using csr_of_eq[of ?g] len by simp
  show ?thesis
    unfolding read_index_def
    by (simp add: fv grp sc ids ix metadata_gets sum_bind_def assms(2) nodes[unfolded assms(2)])
qed

section \<open>What \<open>train\<close> leaves in the graph\<close>

lemma graph_inv_new: "graph_inv oc n (adj_list_new n)"
  by (simp add: graph_inv_def adj_list_new_def)

lemma graph_inv_add_edge:
  assumes "graph_inv oc n graph"
  shows "graph_inv oc n (add_edge oc graph p q s)"
proof (cases "drop_duplicate_edge oc \<and> q \<in> snd ` set (out_edges graph p)")
  case True
  then show ?thesis using assms by (simp add: add_edge_def)
next
  case False
  show ?thesis
  proof (cases "p < length graph")
    case True
    have "set (graph[p := out_edges graph p @ [(s, q)]])
            \<subseteq> insert (out_edges graph p @ [(s, q)]) (set graph)"
      by (rule set_update_subset_insert)
    moreover have "drop_duplicate_edge oc \<Longrightarrow> distinct (map snd (out_edges graph p @ [(s, q)]))"
      using assms False True by (auto simp: graph_inv_def out_edges_def)
    ultimately show ?thesis
      using assms False by (auto simp: graph_inv_def add_edge_def)
  next
    case False
    then show ?thesis using assms by (simp add: add_edge_def list_update_beyond)
  qed
qed

lemma graph_inv_clear_edges:
  assumes "graph_inv oc n graph"
  shows "graph_inv oc n (clear_edges graph p)"
proof -
  have "set (graph[p := []]) \<subseteq> insert [] (set graph)"
    by (rule set_update_subset_insert)
  then show ?thesis using assms by (auto simp: graph_inv_def clear_edges_def)
qed

lemma graph_inv_prune_loop:
  assumes "prune_loop oc db p alpha R graph V = Some r"
  shows "graph_inv oc n graph \<longrightarrow> (\<forall>graph'. r = Inr graph' \<longrightarrow> graph_inv oc n graph')"
proof (rule prune_loop.raw_induct[where P = "\<lambda>oc db p alpha R graph V r.
         graph_inv oc n graph \<longrightarrow> (\<forall>graph'. r = Inr graph' \<longrightarrow> graph_inv oc n graph')",
       OF _ assms], goal_cases)
  case (1 f oc db p alpha R graph V r)
  show ?case
  proof (intro impI allI)
    fix graph'
    assume inv: "graph_inv oc n graph" and r: "r = Inr graph'"
    show "graph_inv oc n graph'"
    proof (cases V)
      case Nil
      then show ?thesis using 1(2) inv r by simp
    next
      case (Cons e es)
      let ?g = "add_edge oc graph p (snd (min_element e es)) (fst (min_element e es))"
      have g: "graph_inv oc n ?g" using inv by (rule graph_inv_add_edge)
      show ?thesis
        using 1(2) r g 1(1)[of oc db p alpha R ?g "survivors db p alpha (snd (min_element e es)) V" r]
        by (auto simp: Cons Let_def split: if_splits)
    qed
  qed
qed

lemma graph_inv_robust_prune:
  "robust_prune oc graph db p V_in alpha R = Some (Inr graph') \<Longrightarrow> graph_inv oc n graph \<Longrightarrow>
   graph_inv oc n graph'"
  unfolding robust_prune_def
  using graph_inv_prune_loop[of oc db p alpha R "clear_edges graph p" _ "Inr graph'" n]
    graph_inv_clear_edges[of oc n graph p] by blast

lemma graph_inv_backlink:
  "backlink oc db alpha R p j graph = Some (Inr graph') \<Longrightarrow> graph_inv oc n graph \<Longrightarrow>
   graph_inv oc n graph'"
  unfolding backlink_def Let_def
  using graph_inv_robust_prune graph_inv_add_edge by (auto split: if_splits)

lemma graph_inv_backlinks:
  "backlinks oc db alpha R p js graph = Some (Inr graph') \<Longrightarrow> graph_inv oc n graph \<Longrightarrow>
   graph_inv oc n graph'"
proof (induction js arbitrary: graph)
  case Nil
  then show ?case by simp
next
  case (Cons j js)
  then show ?case
    using graph_inv_backlink
    by (auto split: option.splits sum.splits)
qed

lemma graph_inv_train_node:
  "train_node oc db med L R alpha p graph = Some (Inr graph') \<Longrightarrow> graph_inv oc n graph \<Longrightarrow>
   graph_inv oc n graph'"
  unfolding train_node_def
  using graph_inv_robust_prune graph_inv_backlinks
  by (auto split: option.splits sum.splits prod.splits)

lemma graph_inv_train_nodes:
  "train_nodes oc db med L R alpha ps graph = Some (Inr graph') \<Longrightarrow> graph_inv oc n graph \<Longrightarrow>
   graph_inv oc n graph'"
proof (induction ps arbitrary: graph)
  case Nil
  then show ?case by simp
next
  case (Cons p ps)
  then show ?case
    using graph_inv_train_node
    by (auto split: option.splits sum.splits)
qed

lemma train_establishes:
  assumes "train oc idx training_set = Some (Inr G)"
  shows "vi_feature_vectors G = training_set"
    and "vi_num_vectors G = num_cols training_set"
    and "graph_inv oc (num_cols training_set) (vi_graph G)"
proof -
  from assms obtain graph where
    t: "train_nodes oc training_set (medioid training_set) (vi_L_build idx) (vi_R_max_degree idx)
          (vi_alpha_max idx) [0..<num_cols training_set] (adj_list_new (num_cols training_set))
        = Some (Inr graph)"
    and G: "G = idx\<lparr>vi_feature_vectors := training_set,
                     vi_dimension := num_rows training_set,
                     vi_num_vectors := num_cols training_set,
                     vi_graph := graph,
                     vi_medioid := medioid training_set\<rparr>"
    by (auto simp: train_def Let_def split: option.splits sum.splits)
  show "vi_feature_vectors G = training_set" "vi_num_vectors G = num_cols training_set"
    by (simp_all add: G)
  show "graph_inv oc (num_cols training_set) (vi_graph G)"
    using graph_inv_train_nodes[OF t graph_inv_new] by (simp add: G)
qed


text \<open>
  C5, as amended. Let \<open>G\<close> be an index returned by \<open>train\<close> whose graph has fewer than
  \<open>2\<^sup>3\<^sup>2\<close> edges, so that every offset fits \<open>index_type\<close>. When \<open>write_index\<close> has written
  \<open>G\<close>, the constructor from the group URI returns \<open>G\<close>: the same metadata, the same
  feature vectors, and for every node the same list of targets and scores in the same order.
  This holds for either reading of \<open>add_edge\<close>.
\<close>

theorem write_then_read_index:
  assumes "train oc idx training_set = Some (Inr G)"
    and "num_edges (vi_graph G) < 2 ^ 32"
    and "write_index G group_uri overwrite st = (True, G', st')"
  shows "read_index oc st' group_uri = Inr G"
proof -
  note t = train_establishes[OF assms(1)]
  show ?thesis
    using assms(2) _ _ _ assms(3)
  proof (rule write_then_read_back)
    show "vi_num_vectors G = num_cols (vi_feature_vectors G)" by (simp add: t)
    show "num_vertices (vi_graph G) = vi_num_vectors G"
      using t by (simp add: graph_inv_def num_vertices_def)
    show "drop_duplicate_edge oc \<longrightarrow> (\<forall>es \<in> set (vi_graph G). distinct (map snd es))"
      using t(3) by (simp add: graph_inv_def)
  qed
qed

theorem write_then_read_index_witness:
  "let G = \<lparr>vi_feature_vectors = [[12], [1], [0]], vi_dimension = 1, vi_num_vectors = 3,
            vi_L_build = 2, vi_R_max_degree = 2, vi_B_backtrack = 2, vi_alpha_min = 1,
            vi_alpha_max = 12 / 10,
            vi_graph = [[(121, 1)], [(1, 2), (121, 0)], [(1, 1), (144, 0)]], vi_medioid = 1\<rparr>;
       written = write_index G ''g'' False (\<lambda>u. None)
   in train stable_ties (vamana_index_new 3 2 2 0) [[12], [1], [0]] = Some (Inr G) \<and>
      num_edges (vi_graph G) = 5 \<and>
      fst written = True \<and>
      read_index stable_ties (snd (snd written)) ''g'' = Inr G"
proof -
  define G where "G = \<lparr>vi_feature_vectors = [[12], [1], [0]], vi_dimension = 1, vi_num_vectors = 3,
            vi_L_build = 2, vi_R_max_degree = 2, vi_B_backtrack = 2, vi_alpha_min = 1,
            vi_alpha_max = 12 / 10,
            vi_graph = [[(121, 1)], [(1, 2), (121, 0)], [(1, 1), (144, 0)]], vi_medioid = 1\<rparr>"
  define written where "written = write_index G ''g'' False (\<lambda>u. None)"
  have t: "train stable_ties (vamana_index_new 3 2 2 0) [[12], [1], [0]] = Some (Inr G)"
    unfolding G_def by code_simp
  have ne: "num_edges (vi_graph G) = 5" by (simp add: G_def num_edges_def)
  then have small: "num_edges (vi_graph G) < 2 ^ 32" by simp
  have ok: "fst written = True"
    by (simp add: written_def write_index_def is_dir_def Let_def)
  then have w: "write_index G ''g'' False (\<lambda>u. None) = (True, fst (snd written), snd (snd written))"
    unfolding written_def by (metis prod.collapse)
  from write_then_read_index[OF t small w]
  have "read_index stable_ties (snd (snd written)) ''g'' = Inr G" .
  with t ne ok show ?thesis
    unfolding Let_def written_def G_def by simp
qed

section \<open>Offsets beyond \<open>index_type\<close>\<close>

lemma read_edges_untouched:
  "read_edges oc i js ids scs graph = Inr g' \<Longrightarrow> n \<noteq> i \<Longrightarrow>
   g' ! n = graph ! n \<and> length g' = length graph"
proof (induction js arbitrary: graph)
  case Nil
  then show ?case by simp
next
  case (Cons j js)
  then show ?case
    by (auto simp: add_edge_other length_add_edge split: if_splits)
qed

lemma read_nodes_untouched:
  "read_nodes oc ns ids scs index graph = Inr g' \<Longrightarrow> n \<notin> set ns \<Longrightarrow>
   g' ! n = graph ! n \<and> length g' = length graph"
proof (induction ns arbitrary: graph)
  case Nil
  then show ?case by simp
next
  case (Cons i ns)
  from Cons.prems obtain g1 where
    e: "read_edges oc i [unat (index ! i)..<unat (index ! Suc i)] ids scs graph = Inr g1"
    and r: "read_nodes oc ns ids scs index g1 = Inr g'"
    by (auto simp: sum_bind_def split: if_splits sum.splits)
  from Cons.prems(2) have ni: "n \<noteq> i" and nn: "n \<notin> set ns" by auto
  from read_edges_untouched[OF e ni] Cons.IH[OF r nn] show ?case by simp
qed

lemma read_nodes_empty_range:
  "Suc i < length index \<Longrightarrow> unat (index ! Suc i) \<le> unat (index ! i) \<Longrightarrow>
   read_nodes oc [i] ids scs index graph = Inr graph"
  by (simp add: sum_bind_def)

lemma edges_before_unit:
  "\<forall>es \<in> set graph. length es = 1 \<Longrightarrow> i \<le> length graph \<Longrightarrow> edges_before graph i = i"
proof (induction i)
  case 0
  then show ?case by (simp add: edges_before_0)
next
  case (Suc i)
  then have "length (graph ! i) = 1" by simp
  with Suc show ?case by (simp add: edges_before_Suc)
qed

lemma read_back_loses_last_node:
  assumes len: "length (vi_graph idx) = 2 ^ 32"
    and unit: "\<forall>es \<in> set (vi_graph idx). length es = 1"
    and nv: "vi_num_vectors idx = 2 ^ 32"
    and w: "write_index idx group_uri overwrite st = (True, idx', st')"
  shows "read_index oc st' group_uri \<noteq> Inr idx"
proof
  let ?g = "vi_graph idx"
  let ?N = "2 ^ 32 :: nat"
  let ?index = "map (\<lambda>i. of_nat (edges_before ?g i) :: 32 word) [0..<Suc (length ?g)]"
  assume rb: "read_index oc st' group_uri = Inr idx"
  have "\<not> (is_dir st group_uri \<and> overwrite = False)"
    using w by (auto simp: write_index_def split: if_splits)
  from write_index_written[OF this, of idx] w
  have grp: "st' group_uri = Some (Group (metadata idx)
                             [''feature_vectors'', ''adj_scores'', ''adj_ids'', ''adj_index''])"
    and fv: "st' (group_uri @ ''/feature_vectors'') = Some (MatrixArray (vi_feature_vectors idx))"
    and sc: "st' (group_uri @ ''/adj_scores'') = Some (ScoreArray (adj_scores (csr_of ?g)))"
    and ids: "st' (group_uri @ ''/adj_ids'') = Some (IdArray (adj_ids (csr_of ?g)))"
    and ix: "st' (group_uri @ ''/adj_index'') = Some (IndexArray (adj_index (csr_of ?g)))"
    by auto
  let ?r = "read_nodes oc [0..<vi_num_vectors idx] (adj_ids (csr_of ?g)) (adj_scores (csr_of ?g))
           (adj_index (csr_of ?g)) (adj_list_new (vi_num_vectors idx))"
  from rb have proj: "map_sum id vi_graph (read_index oc st' group_uri) = Inr ?g" by simp
  have rn: "?r = Inr ?g"
  proof (cases "vi_num_vectors idx = num_cols (vi_feature_vectors idx)")
    case False
    then have "read_index oc st' group_uri = Inl AssertionFailure"
      by (simp add: read_index_def fv grp sc ids ix metadata_gets sum_bind_def)
    with rb show ?thesis by simp
  next
    case True
    show ?thesis
    proof (cases ?r)
      case (Inl e)
      then have "read_index oc st' group_uri = Inl e"
        by (simp add: read_index_def fv grp sc ids ix metadata_gets sum_bind_def True[symmetric])
      with rb show ?thesis by simp
    next
      case (Inr g')
      then have "map_sum id vi_graph (read_index oc st' group_uri) = Inr g'"
        by (simp add: read_index_def fv grp sc ids ix metadata_gets sum_bind_def True[symmetric])
      with proj have "g' = ?g" by simp
      with Inr show ?thesis by simp
    qed
  qed
  have ixeq: "adj_index (csr_of ?g) = ?index" using csr_of_eq[of ?g] by simp
  have up: "[0..<vi_num_vectors idx] = [0..<?N - 1] @ [?N - 1]"
  proof -
    have "[0..<Suc (?N - 1)] = [0..<?N - 1] @ [?N - 1]" by (rule upt_Suc_append) simp
    then show ?thesis by (simp add: nv)
  qed
  from rn obtain g1 where
    r1: "read_nodes oc [0..<?N - 1] (adj_ids (csr_of ?g)) (adj_scores (csr_of ?g))
           (adj_index (csr_of ?g)) (adj_list_new (vi_num_vectors idx)) = Inr g1"
    and r2: "read_nodes oc [?N - 1] (adj_ids (csr_of ?g)) (adj_scores (csr_of ?g))
           (adj_index (csr_of ?g)) g1 = Inr ?g"
    unfolding up read_nodes_append by (auto simp: sum_bind_def split: sum.splits)
  have "?N - 1 \<notin> set [0..<?N - 1]" by simp
  from read_nodes_untouched[OF r1 this]
  have g1: "g1 ! (?N - 1) = []"
    by (simp add: adj_list_new_def nv)
  have lo: "?index ! (?N - 1) = (of_nat (?N - 1) :: 32 word)"
  proof -
    have "?index ! (?N - 1) = of_nat (edges_before ?g (?N - 1))"
      using len by (subst nth_map) (simp_all del: upt_Suc)
    also have "edges_before ?g (?N - 1) = ?N - 1"
      using len by (intro edges_before_unit[OF unit]) simp
    finally show ?thesis .
  qed
  have hi: "?index ! Suc (?N - 1) = (of_nat ?N :: 32 word)"
  proof -
    have "?index ! Suc (?N - 1) = of_nat (edges_before ?g (Suc (?N - 1)))"
      using len by (subst nth_map) (simp_all del: upt_Suc)
    also have "edges_before ?g (Suc (?N - 1)) = Suc (?N - 1)"
      using len by (intro edges_before_unit[OF unit]) simp
    finally show ?thesis by simp
  qed
  have "unat (of_nat ?N :: 32 word) = 0" by (simp add: unat_of_nat)
  then have e0: "unat (?index ! Suc (?N - 1)) = 0" by (simp only: hi)
  have bound: "Suc (?N - 1) < length ?index" using len by (simp del: upt_Suc)
  have "read_nodes oc [?N - 1] (adj_ids (csr_of ?g)) (adj_scores (csr_of ?g)) ?index g1 = Inr g1"
    by (rule read_nodes_empty_range[OF bound]) (simp only: e0 le0)
  with r2 have "?g = g1" by (simp add: ixeq)
  with g1 have "?g ! (?N - 1) = []" by simp
  moreover have "?g ! (?N - 1) \<in> set ?g" using len by (intro nth_mem) simp
  ultimately show False using unit by auto
qed


section \<open>\<open>train\<close> on equal vectors\<close>

lemma stable_ties_simps:
  "evict stable_ties = first_max" "pop_min stable_ties = first_min"
  "drain stable_ties = sort_key fst" "map_order stable_ties = id"
  "drop_duplicate_edge stable_ties = True"
  by (simp_all add: stable_ties_def)

lemma sum_of_squares_zero: "sum_of_squares [0] [0] = 0"
  by (simp add: sum_of_squares_def)

lemma full_heap_refuses:
  "heap_insert_unique stable_ties (Suc 0) [(0, 0)] (0, t) = (False, [(0, 0)])"
  by (simp add: heap_insert_unique_def heap_insert_def stable_ties_simps)

lemma offers_refused:
  "\<forall>t \<in> set ts. t < N \<Longrightarrow>
   fold (offer stable_ties (replicate N [0]) [0] (Suc 0) visited) ts ([(0, 0)], q2) = ([(0, 0)], q2)"
proof (induction ts)
  case Nil
  then show ?case by simp
next
  case (Cons t ts)
  then have "offer stable_ties (replicate N [0]) [0] (Suc 0) visited t ([(0, 0)], q2) = ([(0, 0)], q2)"
    by (simp add: offer_def sum_of_squares_zero full_heap_refuses)
  with Cons show ?case by simp
qed

lemma greedy_search_equal_vectors:
  assumes "\<forall>t \<in> snd ` set (out_edges graph 0). t < N" and "0 < N"
  shows "greedy_search stable_ties graph (replicate N [0]) 0 [0] (Suc 0) (Suc 0) = Some (Inr ([0], [0], [0]))"
proof -
  have ts: "\<forall>t \<in> set (map snd (out_edges graph 0)). t < N" using assms(1) by simp
  have e: "expand stable_ties graph (replicate N [0]) [0] (Suc 0) 0 [0] [(0, 0)] = ([(0, 0)], [])"
    unfolding expand_def
    by (simp add: refill_def offers_refused[OF ts])
  have l2: "greedy_loop stable_ties graph (replicate N [0]) [0] (Suc 0) [(0, 0)] [] [0] = Some ([(0, 0)], [0])"
    by (subst greedy_loop.simps) simp
  have l1: "greedy_loop stable_ties graph (replicate N [0]) [0] (Suc 0) [(0, 0)] [(0, 0)] []
            = Some ([(0, 0)], [0])"
    by (subst greedy_loop.simps) (simp add: stable_ties_simps remove_nth_def e l2)
  show ?thesis
    using assms(2)
    by (simp add: greedy_search_def heap_insert_def sum_of_squares_zero l1
        get_top_k_with_scores_from_heap_def stable_ties_simps)
qed

lemma prune_fresh_node:
  assumes "p < length graph" and "p \<noteq> 0" and "graph ! p = []" and "p < N"
  shows "robust_prune stable_ties graph (replicate N [0]) p [0] alpha (Suc 0)
         = Some (Inr (graph[p := [(0, 0)]]))"
proof -
  have c: "candidates stable_ties graph (replicate N [0]) p [0] = [(0, 0)]"
    using assms
    by (simp add: candidates_def try_emplace_def out_edges_def stable_ties_simps
        sum_of_squares_zero)
  have "prune_loop stable_ties (replicate N [0]) p alpha (Suc 0) (clear_edges graph p) [(0, 0)]
        = Some (Inr (graph[p := [(0, 0)]]))"
    using assms
    by (subst prune_loop.simps)
      (simp add: add_edge_def out_edges_def out_degree_def clear_edges_def)
  then show ?thesis by (simp add: robust_prune_def c)
qed

lemma prune_medoid_first:
  assumes "graph ! 0 = []" and "0 < N"
  shows "robust_prune stable_ties graph (replicate N [0]) 0 [0] alpha (Suc 0) = Some (Inr graph)"
proof -
  have c: "candidates stable_ties graph (replicate N [0]) 0 [0] = []"
    using assms by (simp add: candidates_def out_edges_def stable_ties_simps)
  have "clear_edges graph 0 = graph"
    using assms(1) unfolding clear_edges_def by (metis list_update_id)
  moreover have "prune_loop stable_ties (replicate N [0]) 0 alpha (Suc 0) graph [] = Some (Inr graph)"
    by (subst prune_loop.simps) simp
  ultimately show ?thesis by (simp add: robust_prune_def c)
qed

lemma min_element_zero:
  "fst e = 0 \<Longrightarrow> \<forall>x \<in> set es. fst x = 0 \<Longrightarrow> min_element e es = e"
  by (induction es arbitrary: e) (simp_all add: Let_def)

lemma fold_skip_zeros:
  "fold (\<lambda>v m. if v \<noteq> 0 then try_emplace m v (f v) else m) (replicate k 0) m = m"
  by (induction k) simp_all

lemma backlink_to_medoid:
  assumes "0 < length graph" and "p \<noteq> 0" and "p < N"
    and "out_edges graph 0 = [] \<or> (\<exists>t. out_edges graph 0 = [(0, t)] \<and> t \<noteq> 0 \<and> t \<noteq> p \<and> t < N)"
  shows "backlink stable_ties (replicate N [0]) alpha (Suc 0) p 0 graph
         = Some (Inr (graph[0 := [(0, p)]]))"
proof -
  let ?db = "replicate N [0::real]"
  let ?tmp = "backlink_tmp graph p 0"
  have long: "length ?tmp > Suc 0" by (simp add: backlink_tmp_def)
  have N0: "0 < N" using assms(3) by simp
  have pr: "prune_loop stable_ties ?db 0 alpha (Suc 0) (clear_edges graph 0) ((0, p) # rest)
            = Some (Inr (graph[0 := [(0, p)]]))"
    if "\<forall>e \<in> set rest. fst e = 0" for rest
  proof -
    have "min_element (0, p) rest = (0, p)"
      using that by (intro min_element_zero) simp_all
    then show ?thesis
      using assms(1,2)
      by (subst prune_loop.simps)
        (simp add: add_edge_def out_edges_def out_degree_def clear_edges_def)
  qed
  from assms(4) have "\<exists>rest. candidates stable_ties graph ?db 0 ?tmp = (0, p) # rest \<and>
                        (\<forall>e \<in> set rest. fst e = 0)"
  proof
    assume "out_edges graph 0 = []"
    then have "candidates stable_ties graph ?db 0 ?tmp = [(0, p)]"
      using assms(2,3) N0
      by (simp add: candidates_def backlink_tmp_def out_degree_def fold_skip_zeros try_emplace_def
          stable_ties_simps sum_of_squares_zero)
    then show ?thesis by simp
  next
    assume "\<exists>t. out_edges graph 0 = [(0, t)] \<and> t \<noteq> 0 \<and> t \<noteq> p \<and> t < N"
    then obtain t where t: "out_edges graph 0 = [(0, t)]" "t \<noteq> 0" "t \<noteq> p" "t < N" by blast
    then have "candidates stable_ties graph ?db 0 ?tmp = [(0, p), (0, t)]"
      using assms(2,3) N0
      by (simp add: candidates_def backlink_tmp_def out_degree_def fold_skip_zeros try_emplace_def
          stable_ties_simps sum_of_squares_zero)
    then show ?thesis by simp
  qed
  then obtain rest where c: "candidates stable_ties graph ?db 0 ?tmp = (0, p) # rest"
    and z: "\<forall>e \<in> set rest. fst e = 0" by blast
  show ?thesis
    using long pr[OF z]
    by (simp add: backlink_def Let_def robust_prune_def c del: One_nat_def)
qed

lemma length_star_graph: "length (star_graph N p) = N"
  by (simp add: star_graph_def)

lemma star_graph_nth:
  "i < N \<Longrightarrow> star_graph N p ! i = (if i = 0 then (if p \<le> 1 then [] else [(0, p - 1)])
                                  else if i < p then [(0, 0)] else [])"
  by (simp add: star_graph_def)

lemma star_graph_0: "star_graph N 0 = adj_list_new N"
  by (rule nth_equalityI) (simp_all add: length_star_graph star_graph_nth adj_list_new_def)

lemma star_graph_1: "star_graph N (Suc 0) = star_graph N 0"
  by (rule nth_equalityI) (simp_all add: length_star_graph star_graph_nth)

lemma star_graph_Suc:
  assumes "1 \<le> p" and "p < N"
  shows "(star_graph N p)[p := [(0, 0)], 0 := [(0, p)]] = star_graph N (Suc p)"
proof (rule nth_equalityI)
  show "length ((star_graph N p)[p := [(0, 0)], 0 := [(0, p)]]) = length (star_graph N (Suc p))"
    by (simp add: length_star_graph)
next
  fix i
  assume "i < length ((star_graph N p)[p := [(0, 0)], 0 := [(0, p)]])"
  then have i: "i < N" by (simp add: length_star_graph)
  then show "(star_graph N p)[p := [(0, 0)], 0 := [(0, p)]] ! i = star_graph N (Suc p) ! i"
    using assms by (auto simp: nth_list_update length_star_graph star_graph_nth)
qed

lemma star_graph_all:
  assumes "2 \<le> N"
  shows "star_graph N N = [(0, N - 1)] # replicate (N - 1) [(0, 0)]"
proof (rule nth_equalityI)
  show "length (star_graph N N) = length ([(0, N - 1)] # replicate (N - 1) [(0::real, 0::nat)])"
    using assms by (simp add: length_star_graph)
next
  fix i
  assume "i < length (star_graph N N)"
  then have "i < N" by (simp add: length_star_graph)
  then show "star_graph N N ! i = ([(0, N - 1)] # replicate (N - 1) [(0, 0)]) ! i"
    using assms by (cases i) (simp_all add: star_graph_nth)
qed

lemma train_node_medoid:
  assumes "0 < N" and "graph ! 0 = []" and "0 < length graph"
  shows "train_node stable_ties (replicate N [0]) 0 (Suc 0) (Suc 0) alpha 0 graph = Some (Inr graph)"
proof -
  have g: "greedy_search stable_ties graph (replicate N [0]) 0 [0] (Suc 0) (Suc 0)
           = Some (Inr ([0], [0], [0]))"
    using assms by (intro greedy_search_equal_vectors) (simp_all add: out_edges_def)
  show ?thesis
    using assms
    by (simp add: train_node_def g prune_medoid_first out_edges_def)
qed

lemma train_node_other:
  assumes "length graph = N" and "1 \<le> p" and "p < N" and "graph ! p = []"
    and "out_edges graph 0 = [] \<or> (\<exists>t. out_edges graph 0 = [(0, t)] \<and> t \<noteq> 0 \<and> t \<noteq> p \<and> t < N)"
  shows "train_node stable_ties (replicate N [0]) 0 (Suc 0) (Suc 0) alpha p graph
         = Some (Inr (graph[p := [(0, 0)], 0 := [(0, p)]]))"
proof -
  have N0: "0 < N" using assms(3) by simp
  have g: "greedy_search stable_ties graph (replicate N [0]) 0 [0] (Suc 0) (Suc 0)
           = Some (Inr ([0], [0], [0]))"
    using assms(5) N0 by (intro greedy_search_equal_vectors) auto
  let ?g1 = "graph[p := [(0, 0)]]"
  have r: "robust_prune stable_ties graph (replicate N [0]) p [0] alpha (Suc 0) = Some (Inr ?g1)"
    using assms by (intro prune_fresh_node) simp_all
  have o1: "out_edges ?g1 p = [(0, 0)]" using assms by (simp add: out_edges_def)
  have o0: "out_edges ?g1 0 = out_edges graph 0" using assms by (simp add: out_edges_def)
  have b: "backlink stable_ties (replicate N [0]) alpha (Suc 0) p 0 ?g1
           = Some (Inr (?g1[0 := [(0, p)]]))"
    using assms N0 by (intro backlink_to_medoid) (simp_all add: o0)
  show ?thesis
    using assms(3)
    by (simp add: train_node_def g r o1 b)
qed

lemma train_nodes_snoc:
  "train_nodes oc db med L R alpha (ps @ [p]) graph =
     (case train_nodes oc db med L R alpha ps graph of
        Some (Inr graph') \<Rightarrow> train_node oc db med L R alpha p graph'
      | failure \<Rightarrow> failure)"
proof (induction ps arbitrary: graph)
  case Nil
  show ?case by (simp split: option.splits sum.splits)
next
  case (Cons q ps)
  then show ?case by (simp split: option.splits sum.splits)
qed

lemma train_nodes_equal_vectors:
  "p \<le> N \<Longrightarrow>
   train_nodes stable_ties (replicate N [0]) 0 (Suc 0) (Suc 0) alpha [0..<p] (adj_list_new N)
     = Some (Inr (star_graph N p))"
proof (induction p)
  case 0
  then show ?case by (simp add: star_graph_0)
next
  case (Suc p)
  then have ih: "train_nodes stable_ties (replicate N [0]) 0 (Suc 0) (Suc 0) alpha [0..<p] (adj_list_new N)
     = Some (Inr (star_graph N p))" and pN: "p < N" by simp_all
  show ?case
  proof (cases "p = 0")
    case True
    have "train_node stable_ties (replicate N [0]) 0 (Suc 0) (Suc 0) alpha 0 (star_graph N 0)
          = Some (Inr (star_graph N 0))"
      using pN True by (intro train_node_medoid) (simp_all add: star_graph_nth length_star_graph)
    then show ?thesis
      using ih True by (simp add: train_nodes_snoc star_graph_1)
  next
    case False
    have "train_node stable_ties (replicate N [0]) 0 (Suc 0) (Suc 0) alpha p (star_graph N p)
          = Some (Inr ((star_graph N p)[p := [(0, 0)], 0 := [(0, p)]]))"
      using pN False
      by (intro train_node_other) (auto simp: star_graph_nth length_star_graph out_edges_def)
    then show ?thesis
      using ih False pN by (simp add: train_nodes_snoc star_graph_Suc)
  qed
qed

lemma sum_list_zeros:
  fixes f :: "'a \<Rightarrow> real"
  shows "\<forall>x \<in> set xs. f x = 0 \<Longrightarrow> sum_list (map f xs) = 0"
  by (induction xs) simp_all

lemma medioid_equal_vectors:
  assumes "0 < N"
  shows "medioid (replicate N [0]) = 0"
proof -
  let ?P = "replicate N [0::real]"
  have c: "map (\<lambda>i. sum_list (map (\<lambda>j. ?P ! j ! i) [0..<N]) / real N) [0..<length (?P ! 0)] = [0]"
  proof -
    have "sum_list (map (\<lambda>j. ?P ! j ! 0) [0..<N]) = 0"
      by (rule sum_list_zeros) simp
    then show ?thesis using assms by simp
  qed
  have rest: "fold (\<lambda>i (min_score, med).
                      if sum_of_squares (?P ! i) [0] < min_score
                      then (sum_of_squares (?P ! i) [0], i) else (min_score, med)) ns (0, m)
              = (0, m)" if "\<forall>i \<in> set ns. i < N" for ns m
    using that by (induction ns) (simp_all add: sum_of_squares_zero)
  have up: "[0..<N] = 0 # [1..<N]" using assms by (simp add: upt_conv_Cons)
  show ?thesis
    unfolding medioid_def num_cols_def Let_def length_replicate c
    unfolding up
    using assms rest[of "[1..<N]" 0]
    by (simp add: sum_of_squares_zero float_max_def)
qed

lemma train_equal_vectors:
  assumes "2 \<le> N"
  shows "train stable_ties (vamana_index_new N 1 1 0) (replicate N [0])
         = Some (Inr \<lparr>vi_feature_vectors = replicate N [0], vi_dimension = 1, vi_num_vectors = N,
                       vi_L_build = 1, vi_R_max_degree = 1, vi_B_backtrack = 1, vi_alpha_min = 1,
                       vi_alpha_max = 12 / 10,
                       vi_graph = [(0, N - 1)] # replicate (N - 1) [(0, 0)], vi_medioid = 0\<rparr>)"
proof -
  have N0: "0 < N" using assms by simp
  have rows: "num_rows (replicate N [0::real]) = 1"
    using N0 by (cases N) (simp_all add: num_rows_def)
  have t: "train_nodes stable_ties (replicate N [0]) 0 (Suc 0) (Suc 0) alpha [0..<N] (adj_list_new N)
     = Some (Inr (star_graph N N))" for alpha
    by (rule train_nodes_equal_vectors) simp
  show ?thesis
    by (simp add: train_def vamana_index_new_def Let_def num_cols_def rows
        medioid_equal_vectors[OF N0] t star_graph_all[OF assms])
qed

text \<open>
  The claim as stated fails at \<open>2\<^sup>3\<^sup>2\<close> edges. Training \<open>2\<^sup>3\<^sup>2\<close> equal vectors with
  \<open>L = R = 1\<close> returns the index below: node 0 points to the last node and every other
  node points to node 0, one edge per node. \<open>write_index\<close> counts \<open>edge_offset\<close> up to
  \<open>2\<^sup>3\<^sup>2\<close> and stores it in \<open>adj_index.back()\<close>, an \<open>uint32_t\<close>, as 0. The constructor
  reads for the last node the offsets \<open>2\<^sup>3\<^sup>2 - 1\<close> and 0, its loop over \<open>j\<close> does not run,
  and the node comes back without its edge.
\<close>

theorem write_then_read_index_loses_edges_counterexample:
  "train stable_ties (vamana_index_new (2 ^ 32) 1 1 0) (replicate (2 ^ 32) [0])
     = Some (Inr \<lparr>vi_feature_vectors = replicate (2 ^ 32) [0], vi_dimension = 1,
                   vi_num_vectors = 2 ^ 32, vi_L_build = 1, vi_R_max_degree = 1,
                   vi_B_backtrack = 1, vi_alpha_min = 1, vi_alpha_max = 12 / 10,
                   vi_graph = [(0, 2 ^ 32 - 1)] # replicate (2 ^ 32 - 1) [(0, 0)],
                   vi_medioid = 0\<rparr>) \<and>
   num_edges ([(0, 2 ^ 32 - 1)] # replicate (2 ^ 32 - 1) [(0::real, 0::nat)]) = 2 ^ 32 \<and>
   fst (write_index
          \<lparr>vi_feature_vectors = replicate (2 ^ 32) [0], vi_dimension = 1,
            vi_num_vectors = 2 ^ 32, vi_L_build = 1, vi_R_max_degree = 1,
            vi_B_backtrack = 1, vi_alpha_min = 1, vi_alpha_max = 12 / 10,
            vi_graph = [(0, 2 ^ 32 - 1)] # replicate (2 ^ 32 - 1) [(0, 0)],
            vi_medioid = 0\<rparr>
          ''g'' False Map.empty) = True \<and>
   read_index stable_ties
     (snd (snd (write_index
          \<lparr>vi_feature_vectors = replicate (2 ^ 32) [0], vi_dimension = 1,
            vi_num_vectors = 2 ^ 32, vi_L_build = 1, vi_R_max_degree = 1,
            vi_B_backtrack = 1, vi_alpha_min = 1, vi_alpha_max = 12 / 10,
            vi_graph = [(0, 2 ^ 32 - 1)] # replicate (2 ^ 32 - 1) [(0, 0)],
            vi_medioid = 0\<rparr>
          ''g'' False Map.empty)))
     ''g''
   \<noteq> Inr \<lparr>vi_feature_vectors = replicate (2 ^ 32) [0], vi_dimension = 1,
            vi_num_vectors = 2 ^ 32, vi_L_build = 1, vi_R_max_degree = 1,
            vi_B_backtrack = 1, vi_alpha_min = 1, vi_alpha_max = 12 / 10,
            vi_graph = [(0, 2 ^ 32 - 1)] # replicate (2 ^ 32 - 1) [(0, 0)],
            vi_medioid = 0\<rparr>"
proof -
  define graph :: adj_list where "graph = [(0, 2 ^ 32 - 1)] # replicate (2 ^ 32 - 1) [(0, 0)]"
  define fvs :: matrix where "fvs = replicate (2 ^ 32) [0]"
  define G where "G = \<lparr>vi_feature_vectors = fvs, vi_dimension = 1,
                   vi_num_vectors = 2 ^ 32, vi_L_build = 1, vi_R_max_degree = 1,
                   vi_B_backtrack = 1, vi_alpha_min = 1, vi_alpha_max = 12 / 10,
                   vi_graph = graph, vi_medioid = 0\<rparr>"
  define written where "written = write_index G ''g'' False Map.empty"
  have "(2::nat) \<le> 2 ^ 32" by simp
  from train_equal_vectors[OF this]
  have t: "train stable_ties (vamana_index_new (2 ^ 32) 1 1 0) fvs = Some (Inr G)"
    unfolding G_def graph_def fvs_def .
  have len: "length (vi_graph G) = 2 ^ 32" by (simp add: G_def graph_def)
  have unit: "\<forall>es \<in> set (vi_graph G). length es = 1" by (auto simp: G_def graph_def)
  have nv: "vi_num_vectors G = 2 ^ 32" by (simp add: G_def)
  have ok: "fst written = True"
    by (simp add: written_def write_index_def is_dir_def Let_def)
  then have w: "write_index G ''g'' False Map.empty = (True, fst (snd written), snd (snd written))"
    unfolding written_def by (metis prod.collapse)
  have "num_edges (vi_graph G) = edges_before (vi_graph G) (length (vi_graph G))"
    by (simp add: edges_before_all)
  also have "\<dots> = length (vi_graph G)" by (rule edges_before_unit[OF unit]) simp
  finally have ne: "num_edges graph = 2 ^ 32" using len by (simp add: G_def)
  from read_back_loses_last_node[OF len unit nv w]
  have "read_index stable_ties (snd (snd written)) ''g'' \<noteq> Inr G" .
  with t ok ne show ?thesis
    unfolding written_def G_def graph_def fvs_def by (intro conjI)
qed

end
